theory Spec2Isabelle
  imports Main
begin

section \<open>The batch asset generator \<^verbatim>\<open>generate_assets.py\<close>\<close>

text \<open>
  The script is sequential glue over external collaborators: the image generation
  service (\<^verbatim>\<open>replicate.run\<close>), the HTTP download (\<^verbatim>\<open>urllib.request.urlretrieve\<close>),
  the file system (\<^verbatim>\<open>os.makedirs\<close>, \<^verbatim>\<open>os.path.exists\<close>, \<^verbatim>\<open>os.path.getsize\<close>), standard
  output (\<^verbatim>\<open>print\<close>) and the clock (\<^verbatim>\<open>time.sleep\<close>). The embedding passes an explicit
  \<open>world\<close> (the file system and the trace of every external call made so far) through
  the program, and takes the collaborators' answers from an \<open>env\<close> of oracles. Each
  oracle sees the world at the moment of the call, so its answer may depend on the whole
  history. A Python exception is a value: every call returns \<open>Ok\<close> or \<open>Raise\<close>.
\<close>

subsection \<open>Data\<close>

type_synonym path = string

text \<open>
  Exceptions. All exceptions of the model are instances of Python's \<^verbatim>\<open>Exception\<close>, which
  is what \<^verbatim>\<open>except Exception\<close> catches; \<^verbatim>\<open>FileExistsError\<close> is a subclass of \<^verbatim>\<open>OSError\<close>
  (the class \<open>OSError\<close> stands for \<^verbatim>\<open>OSError\<close> and its other subclasses). \<open>message\<close> is
  \<^verbatim>\<open>str(e)\<close>. Asynchronous termination of the process (\<^verbatim>\<open>KeyboardInterrupt\<close>, a kill
  signal) is outside the model.
\<close>

datatype exn_class = FileExistsError | OSError | Exception

datatype exn = Exn (cls: exn_class) (message: string)

definition is_OSError :: "exn \<Rightarrow> bool" where
  "is_OSError e = (cls e = OSError \<or> cls e = FileExistsError)"

definition is_FileExistsError :: "exn \<Rightarrow> bool" where
  "is_FileExistsError e = (cls e = FileExistsError)"

datatype node = File (content: string) | Dir

text \<open>The \<^verbatim>\<open>input\<close> dictionary of \<^verbatim>\<open>replicate.run\<close>, one field per key.\<close>

record gen_input =
  in_prompt :: string
  in_aspect_ratio :: string
  in_output_format :: string
  in_safety_tolerance :: int

text \<open>
  The external calls a run makes, in the order of the trace. A call is recorded when it
  is made, whether it then succeeds or raises; \<open>Print\<close> records a line that reached
  standard output.
\<close>

datatype event =
    Mkdir path
  | Stat path
  | Generate string gen_input
  | Retrieve string path
  | Sleep nat
  | Print string

record world =
  fs :: "path \<rightharpoonup> node"
  trace :: "event list"

text \<open>
  The outcome of one download: the whole body was written, or the call failed, leaving
  nothing (\<open>None\<close>) or a truncated file (\<open>Some\<close>) at the destination.
\<close>

datatype download = is_Fetched: Fetched string | Failed exn "string option"

text \<open>
  The collaborators. \<open>service\<close> answers \<^verbatim>\<open>replicate.run\<close> with an error or with the
  output's locator, \<open>fetch\<close> decides a download; the other oracles say when the platform
  makes \<^verbatim>\<open>os.stat\<close>, \<^verbatim>\<open>os.mkdir\<close>, a write to standard output or \<^verbatim>\<open>time.sleep\<close> raise
  (\<open>None\<close>: it does not), the first two with the description of the \<^verbatim>\<open>OSError\<close>.
\<close>

record env =
  service :: "world \<Rightarrow> string \<Rightarrow> gen_input \<Rightarrow> exn + string"
  fetch :: "world \<Rightarrow> string \<Rightarrow> path \<Rightarrow> download"
  stat_err :: "world \<Rightarrow> path \<Rightarrow> string option"
  mkdir_err :: "world \<Rightarrow> path \<Rightarrow> string option"
  stdout_err :: "world \<Rightarrow> string \<Rightarrow> exn option"
  sleep_err :: "world \<Rightarrow> nat \<Rightarrow> exn option"
  dir_size :: nat

datatype 'a res = Ok (val: 'a) (world_of: world) | Raise (exc: exn) (world_of: world)

text \<open>Sequencing of statements: an exception skips what follows.\<close>

definition and_then :: "'a res \<Rightarrow> ('a \<Rightarrow> world \<Rightarrow> 'b res) \<Rightarrow> 'b res" where
  "and_then r k = (case r of Ok x w \<Rightarrow> k x w | Raise e w \<Rightarrow> Raise e w)"

definition logged :: "event \<Rightarrow> world \<Rightarrow> world" where
  "logged ev w = w\<lparr>trace := trace w @ [ev]\<rparr>"

subsection \<open>The constants of the script\<close>

definition ASSETS :: path where
  "ASSETS = ''C:/Users/useva/.openclaw/workspace/projects/card-ledger/public/assets''"

type_synonym asset = "string \<times> string \<times> string"

definition images :: "asset list" where
  "images = [
    (''hero-bg.png'', ''16:9'',
     ''Futuristic dark scene with holographic Pokemon trading cards floating in 3D space, glass panels with glowing blue data visualizations, deep navy and purple gradient background, volumetric lighting rays, bokeh particles, cinematic composition, ultra high quality''),
    (''feature-track.png'', ''1:1'',
     ''Glass display case with holographic trading cards arranged in a grid, each card glowing with iridescent rainbow edges, dark background with blue ambient light, museum-quality presentation, ultra realistic, professional product photography''),
    (''feature-price.png'', ''1:1'',
     ''Futuristic holographic price dashboard floating in dark space, glowing blue and purple charts and numbers, glass panels with market data, trading card silhouettes in background, cinematic lighting, high tech financial interface aesthetic''),
    (''feature-scan.png'', ''1:1'',
     ''Smartphone scanning a holographic Pokemon card with AR augmented reality overlay, blue scanning laser lines, card data floating in glass panels around the phone, dark background, futuristic tech aesthetic, professional''),
    (''feature-profit.png'', ''1:1'',
     ''Holographic portfolio analytics dashboard floating in dark space, glowing green profit chart trending upward, glass panels with card thumbnails, blue and purple ambient light, futuristic financial visualization, cinematic''),
    (''empty-inventory.png'', ''1:1'',
     ''Single holographic trading card floating in dark void, soft blue glow emanating from the card, minimalist, particles of light, ethereal and calm, centered composition, clean negative space''),
    (''empty-search.png'', ''1:1'',
     ''Glass magnifying lens floating in dark space, blue light refracting through the lens, scattered light particles, minimalist futuristic aesthetic, clean and elegant''),
    (''empty-sales.png'', ''1:1'',
     ''Holographic receipt transforming into a glowing chart, blue and green light, glass effect, dark background, futuristic financial transformation concept, minimalist''),
    (''onboard-welcome.png'', ''9:16'',
     ''Single holographic Pokemon card bursting with prismatic light rays, dark background, epic and dramatic, card emerging from darkness into brilliant blue and purple light, cinematic vertical composition''),
    (''onboard-scan.png'', ''9:16'',
     ''Hands holding smartphone scanning a trading card, AR overlay with blue holographic data, card identification interface, dark background, futuristic mobile technology, vertical composition''),
    (''onboard-track.png'', ''9:16'',
     ''Beautiful glass dashboard showing trading card collection grid, holographic cards organized in rows, portfolio value displayed prominently, dark background with blue glow, vertical composition''),
    (''onboard-price.png'', ''9:16'',
     ''Futuristic price ticker display with holographic numbers and charts, trading cards with price tags floating, market data visualization, blue and green accents on dark background, vertical composition''),
    (''onboard-profit.png'', ''9:16'',
     ''Portfolio growth visualization, glowing green upward trending line chart, holographic coins and trading cards, celebration energy, dark background with blue and green light, vertical composition''),
    (''og-share.png'', ''16:9'',
     ''Premium dark banner with holographic trading cards fanned out, glass panel overlay, blue and purple gradient, professional and sleek, wide cinematic composition, card collection showcase''),
    (''empty-watchlist.png'', ''1:1'',
     ''Futuristic eye icon with blue radar pulse rings emanating outward, dark background, holographic glass effect, surveillance and monitoring aesthetic, minimalist and clean'')
  ]"

definition model_name :: string where
  "model_name = ''black-forest-labs/flux-1.1-pro''"

definition run_input :: "string \<Rightarrow> string \<Rightarrow> gen_input" where
  "run_input p a =
     \<lparr>in_prompt = p, in_aspect_ratio = a, in_output_format = ''png'',
       in_safety_tolerance = 5\<rparr>"

subsection \<open>Strings\<close>

text \<open>\<^verbatim>\<open>str(n)\<close> for a non-negative integer.\<close>

fun str_nat :: "nat \<Rightarrow> string" where
  "str_nat n =
     (if n < 10 then [''0123456789'' ! n]
      else str_nat (n div 10) @ [''0123456789'' ! (n mod 10)])"

declare str_nat.simps [simp del]

text \<open>
  \<^verbatim>\<open>os.path.join(a, b)\<close> for two arguments, as \<^verbatim>\<open>posixpath.join\<close> computes it; for a
  relative \<open>b\<close> without a drive, \<^verbatim>\<open>ntpath.join\<close> differs in the separator it inserts only.
\<close>

definition path_join :: "path \<Rightarrow> path \<Rightarrow> path" where
  "path_join a b =
     (if b \<noteq> [] \<and> hd b = CHR ''/'' then b
      else if a = [] \<or> last a = CHR ''/'' then a @ b
      else a @ ''/'' @ b)"

text \<open>The lines the script prints (the argument of \<^verbatim>\<open>print\<close>, without the final newline).\<close>

definition progress_line :: "nat \<Rightarrow> nat \<Rightarrow> string \<Rightarrow> string \<Rightarrow> string" where
  "progress_line i n filename aspect =
     [CHR 0x0A] @ ''['' @ str_nat (i + 1) @ ''/'' @ str_nat n @ ''] Generating '' @ filename
       @ '' ('' @ aspect @ '')...''"

definition saved_line :: "string \<Rightarrow> nat \<Rightarrow> string" where
  "saved_line filename sz =
     ''  OK Saved: '' @ filename @ '' ('' @ str_nat (sz div 1024) @ '' KB)''"

definition fail_line :: "string \<Rightarrow> exn \<Rightarrow> string" where
  "fail_line filename e = ''  FAIL: '' @ filename @ '' - '' @ message e"

definition waiting_line :: string where
  "waiting_line = ''  Waiting 65s...''"

definition ok_line :: "string \<Rightarrow> nat \<Rightarrow> string" where
  "ok_line filename sz = ''  OK '' @ filename @ '': '' @ str_nat (sz div 1024) @ '' KB''"

definition missing_line :: "string \<Rightarrow> string" where
  "missing_line filename = ''  MISSING '' @ filename"

definition rule_line :: string where
  "rule_line = replicate 50 (CHR ''='')"

subsection \<open>The external calls\<close>

text \<open>
  \<^verbatim>\<open>print(s, flush=True)\<close>: the line reaches standard output, or the write raises and
  nothing is emitted.
\<close>

definition print :: "env \<Rightarrow> string \<Rightarrow> world \<Rightarrow> unit res" where
  "print env s w =
     (case stdout_err env w s of
        Some e \<Rightarrow> Raise e w
      | None \<Rightarrow> Ok () (logged (Print s) w))"

definition sleep :: "env \<Rightarrow> nat \<Rightarrow> world \<Rightarrow> unit res" where
  "sleep env secs w =
     (case sleep_err env w secs of
        Some e \<Rightarrow> Raise e (logged (Sleep secs) w)
      | None \<Rightarrow> Ok () (logged (Sleep secs) w))"

text \<open>\<^verbatim>\<open>replicate.run(model, input=...)\<close> followed by \<^verbatim>\<open>str(output)\<close>: the image's URL.\<close>

definition replicate_run :: "env \<Rightarrow> string \<Rightarrow> gen_input \<Rightarrow> world \<Rightarrow> string res" where
  "replicate_run env m inp w =
     (case service env w m inp of
        Inl e \<Rightarrow> Raise e (logged (Generate m inp) w)
      | Inr url \<Rightarrow> Ok url (logged (Generate m inp) w))"

text \<open>
  \<^verbatim>\<open>urllib.request.urlretrieve(url, filepath)\<close>: the destination is opened for writing
  (created or truncated) and the body copied into it; nothing removes the file when the
  copy fails.
\<close>

definition urlretrieve :: "env \<Rightarrow> string \<Rightarrow> path \<Rightarrow> world \<Rightarrow> unit res" where
  "urlretrieve env url p w =
     (case fetch env w url p of
        Fetched body \<Rightarrow> Ok () (logged (Retrieve url p) w\<lparr>fs := (fs w)(p \<mapsto> File body)\<rparr>)
      | Failed e None \<Rightarrow> Raise e (logged (Retrieve url p) w)
      | Failed e (Some part) \<Rightarrow>
          Raise e (logged (Retrieve url p) w\<lparr>fs := (fs w)(p \<mapsto> File part)\<rparr>))"

text \<open>\<^verbatim>\<open>os.stat(p).st_size\<close>; the platform decides the size it reports for a directory.\<close>

definition st_size :: "env \<Rightarrow> node \<Rightarrow> nat" where
  "st_size env nd = (case nd of File body \<Rightarrow> length body | Dir \<Rightarrow> dir_size env)"

definition os_stat :: "env \<Rightarrow> path \<Rightarrow> world \<Rightarrow> node res" where
  "os_stat env p w =
     (case stat_err env w p of
        Some msg \<Rightarrow> Raise (Exn OSError msg) (logged (Stat p) w)
      | None \<Rightarrow>
          (case fs w p of
             None \<Rightarrow> Raise (Exn OSError (''[Errno 2] No such file or directory: '' @ p))
                       (logged (Stat p) w)
           | Some nd \<Rightarrow> Ok nd (logged (Stat p) w)))"

text \<open>\<^verbatim>\<open>os.path.getsize\<close>, \<^verbatim>\<open>os.path.exists\<close> and \<^verbatim>\<open>os.path.isdir\<close>, all on top of \<^verbatim>\<open>os.stat\<close>;
  the last two answer \<^verbatim>\<open>False\<close> when it raises \<^verbatim>\<open>OSError\<close>.\<close>

definition getsize :: "env \<Rightarrow> path \<Rightarrow> world \<Rightarrow> nat res" where
  "getsize env p w = and_then (os_stat env p w) (\<lambda>nd. Ok (st_size env nd))"

definition path_exists :: "env \<Rightarrow> path \<Rightarrow> world \<Rightarrow> bool res" where
  "path_exists env p w =
     (case os_stat env p w of
        Ok nd w' \<Rightarrow> Ok True w'
      | Raise e w' \<Rightarrow> Ok False w')"

definition isdir :: "env \<Rightarrow> path \<Rightarrow> world \<Rightarrow> bool res" where
  "isdir env p w =
     (case os_stat env p w of
        Ok nd w' \<Rightarrow> Ok (nd = Dir) w'
      | Raise e w' \<Rightarrow> Ok False w')"

subsection \<open>The generation loop (lines 29 to 46)\<close>

text \<open>The body of the \<^verbatim>\<open>try\<close> block, lines 32 to 40.\<close>

definition try_body :: "env \<Rightarrow> asset \<Rightarrow> world \<Rightarrow> unit res" where
  "try_body env item w =
     (case item of (filename, aspect, prompt) \<Rightarrow>
        and_then (replicate_run env model_name (run_input prompt aspect) w) (\<lambda>url w1.
          let filepath = path_join ASSETS filename in
          and_then (urlretrieve env url filepath w1) (\<lambda>_ w2.
            and_then (getsize env filepath w2) (\<lambda>sz w3.
              print env (saved_line filename sz) w3))))"

text \<open>\<^verbatim>\<open>try: ... except Exception as e: print(FAIL ...)\<close>, lines 31 to 42.\<close>

definition try_except :: "env \<Rightarrow> asset \<Rightarrow> world \<Rightarrow> unit res" where
  "try_except env item w =
     (case try_body env item w of
        Ok u w' \<Rightarrow> Ok u w'
      | Raise e w' \<Rightarrow> print env (fail_line (fst item) e) w')"

text \<open>The pacing delay, lines 44 to 46; \<open>n\<close> is \<^verbatim>\<open>len(images)\<close>.\<close>

definition pacing :: "env \<Rightarrow> nat \<Rightarrow> nat \<Rightarrow> world \<Rightarrow> unit res" where
  "pacing env i n w =
     (if int i < int n - 1
      then and_then (print env waiting_line w) (\<lambda>_. sleep env 65)
      else Ok () w)"

text \<open>One iteration of the \<^verbatim>\<open>for\<close> loop, lines 30 to 46.\<close>

definition loop_body :: "env \<Rightarrow> nat \<Rightarrow> nat \<Rightarrow> asset \<Rightarrow> world \<Rightarrow> unit res" where
  "loop_body env n i item w =
     and_then (print env (progress_line i n (fst item) (fst (snd item))) w) (\<lambda>_ w1.
       and_then (try_except env item w1) (\<lambda>_. pacing env i n))"

fun for_loop :: "env \<Rightarrow> nat \<Rightarrow> (nat \<times> asset) list \<Rightarrow> world \<Rightarrow> unit res" where
  "for_loop env n [] w = Ok () w"
| "for_loop env n ((i, item) # rest) w =
     (case loop_body env n i item w of
        Raise e w' \<Rightarrow> Raise e w'
      | Ok _ w' \<Rightarrow> for_loop env n rest w')"

definition generation_loop :: "env \<Rightarrow> asset list \<Rightarrow> world \<Rightarrow> unit res" where
  "generation_loop env imgs w = for_loop env (length imgs) (enumerate 0 imgs) w"

subsection \<open>The summary pass (lines 48 to 58)\<close>

definition summary_entry :: "env \<Rightarrow> asset \<Rightarrow> world \<Rightarrow> unit res" where
  "summary_entry env item w =
     (let filename = fst item; filepath = path_join ASSETS filename in
      and_then (path_exists env filepath w) (\<lambda>present w1.
        if present
        then and_then (getsize env filepath w1) (\<lambda>sz. print env (ok_line filename sz))
        else print env (missing_line filename) w1))"

fun summary_loop :: "env \<Rightarrow> asset list \<Rightarrow> world \<Rightarrow> unit res" where
  "summary_loop env [] w = Ok () w"
| "summary_loop env (item # rest) w =
     (case summary_entry env item w of
        Raise e w' \<Rightarrow> Raise e w'
      | Ok _ w' \<Rightarrow> summary_loop env rest w')"

definition summary :: "env \<Rightarrow> asset list \<Rightarrow> world \<Rightarrow> unit res" where
  "summary env imgs w =
     and_then (print env ([CHR 0x0A] @ rule_line) w) (\<lambda>_ w1.
       and_then (print env ''SUMMARY'' w1) (\<lambda>_ w2.
         and_then (print env rule_line w2) (\<lambda>_ w3.
           and_then (summary_loop env imgs w3) (\<lambda>_. print env ''DONE''))))"

text \<open>Lines 29 to 58: the generation loop, then the summary pass over the same list.\<close>

definition batch :: "env \<Rightarrow> asset list \<Rightarrow> world \<Rightarrow> unit res" where
  "batch env imgs w = and_then (generation_loop env imgs w) (\<lambda>_. summary env imgs)"


subsection \<open>Output directory preparation (lines 8 and 9)\<close>

text \<open>
  \<^verbatim>\<open>os.makedirs\<close> is library code. It is modelled after the standard library's own
  source (\<^verbatim>\<open>os.makedirs\<close> on top of \<^verbatim>\<open>posixpath.split\<close>, \<^verbatim>\<open>os.path.exists\<close>,
  \<^verbatim>\<open>os.path.isdir\<close> and the system call \<^verbatim>\<open>os.mkdir\<close>). Paths are read the POSIX
  way: the separator is the slash and \<^verbatim>\<open>C:\<close> is a directory name like any other; the
  Windows variant of \<^verbatim>\<open>split\<close> differs in how it treats the drive prefix. The file system
  is a map from path strings to entries, so two spellings of one path are two keys.
  \<^verbatim>\<open>
  def split(p):
      i = p.rfind('/') + 1
      head, tail = p[:i], p[i:]
      if head and head != '/'*len(head):
          head = head.rstrip('/')
      return head, tail

  def makedirs(name, mode=0o777, exist_ok=False):
      head, tail = path.split(name)
      if not tail:
          head, tail = path.split(head)
      if head and tail and not path.exists(head):
          try:
              makedirs(head, exist_ok=exist_ok)
          except FileExistsError:
              pass
          if tail == curdir:
              return
      try:
          mkdir(name, mode)
      except OSError:
          if not exist_ok or not path.isdir(name):
              raise
  \<close>
\<close>

definition path_split :: "path \<Rightarrow> path \<times> path" where
  "path_split p =
     (let tail = rev (takeWhile (\<lambda>c. c \<noteq> CHR ''/'') (rev p));
          head = take (length p - length tail) p
      in (if head \<noteq> [] \<and> head \<noteq> replicate (length head) (CHR ''/'')
          then rev (dropWhile (\<lambda>c. c = CHR ''/'') (rev head))
          else head,
          tail))"

text \<open>The two steps with which \<^verbatim>\<open>makedirs\<close> finds the parent of \<open>name\<close>.\<close>

definition split_name :: "path \<Rightarrow> path \<times> path" where
  "split_name name =
     (case path_split name of (head, tail) \<Rightarrow>
        if tail = [] then path_split head else (head, tail))"

text \<open>
  The system call: it fails when the platform refuses it (the oracle), when the name is
  taken, or when the directory that should contain it is missing; the current directory
  and the root exist.
\<close>

definition parent_ok :: "world \<Rightarrow> path \<Rightarrow> bool" where
  "parent_ok w p =
     (let d = fst (split_name p) in list_all (\<lambda>c. c = CHR ''/'') d \<or> fs w d = Some Dir)"

definition mkdir :: "env \<Rightarrow> path \<Rightarrow> world \<Rightarrow> unit res" where
  "mkdir env p w =
     (case mkdir_err env w p of
        Some msg \<Rightarrow> Raise (Exn OSError msg) (logged (Mkdir p) w)
      | None \<Rightarrow>
          if fs w p \<noteq> None
          then Raise (Exn FileExistsError (''[Errno 17] File exists: '' @ p)) (logged (Mkdir p) w)
          else if \<not> parent_ok w p
          then Raise (Exn OSError (''[Errno 2] No such file or directory: '' @ p))
                 (logged (Mkdir p) w)
          else Ok () (logged (Mkdir p) w\<lparr>fs := (fs w)(p \<mapsto> Dir)\<rparr>))"

text \<open>The last statement of \<^verbatim>\<open>makedirs\<close>: \<^verbatim>\<open>mkdir\<close> inside its \<^verbatim>\<open>try\<close>.\<close>

definition mkdir_leaf :: "env \<Rightarrow> path \<Rightarrow> bool \<Rightarrow> world \<Rightarrow> unit res" where
  "mkdir_leaf env name exist_ok w =
     (case mkdir env name w of
        Ok u w' \<Rightarrow> Ok u w'
      | Raise e w' \<Rightarrow>
          if \<not> is_OSError e then Raise e w'
          else if \<not> exist_ok then Raise e w'
          else (case isdir env name w' of
                  Ok d w'' \<Rightarrow> if \<not> d then Raise e w'' else Ok () w''
                | Raise e' w'' \<Rightarrow> Raise e' w''))"

lemma path_split_length:
  "path_split p = (h, t) \<Longrightarrow> length h + length t \<le> length p"
proof -
  assume eq: "path_split p = (h, t)"
  let ?t = "rev (takeWhile (\<lambda>c. c \<noteq> CHR ''/'') (rev p))"
  let ?h = "take (length p - length ?t) p"
  have t: "t = ?t" using eq by (simp add: path_split_def Let_def)
  have lt: "length ?t \<le> length p"
    using length_takeWhile_le [of "\<lambda>c. c \<noteq> CHR ''/''" "rev p"] by simp
  have "length (rev (dropWhile (\<lambda>c. c = CHR ''/'') (rev ?h))) \<le> length ?h"
    using length_dropWhile_le [of "\<lambda>c. c = CHR ''/''" "rev ?h"] by simp
  moreover have "h = ?h \<or> h = rev (dropWhile (\<lambda>c. c = CHR ''/'') (rev ?h))"
    using eq by (auto simp: path_split_def Let_def split: if_splits)
  ultimately have "length h \<le> length ?h" by auto
  then show ?thesis using t lt by simp
qed

lemma split_name_length:
  "split_name p = (h, t) \<Longrightarrow> length h + length t \<le> length p"
proof -
  assume eq: "split_name p = (h, t)"
  obtain h0 t0 where s0: "path_split p = (h0, t0)" by (cases "path_split p")
  show ?thesis
  proof (cases "t0 = []")
    case True
    then have "path_split h0 = (h, t)" using eq s0 by (simp add: split_name_def)
    then have "length h + length t \<le> length h0" by (rule path_split_length)
    moreover have "length h0 + length t0 \<le> length p" using s0 by (rule path_split_length)
    ultimately show ?thesis by simp
  next
    case False
    then have "(h0, t0) = (h, t)" using eq s0 by (simp add: split_name_def)
    then show ?thesis using path_split_length [OF s0] by simp
  qed
qed

lemma split_name_shorter:
  "split_name name = (head, tail) \<Longrightarrow> tail \<noteq> [] \<Longrightarrow> length head < length name"
  using split_name_length [of name head tail] by (cases tail) auto

function makedirs :: "env \<Rightarrow> path \<Rightarrow> bool \<Rightarrow> world \<Rightarrow> unit res" where
  "makedirs env name exist_ok w =
     (case split_name name of (head, tail) \<Rightarrow>
        if head \<noteq> [] \<and> tail \<noteq> []
        then (case path_exists env head w of
                Raise e w1 \<Rightarrow> Raise e w1
              | Ok present w1 \<Rightarrow>
                  if \<not> present
                  then (case makedirs env head exist_ok w1 of
                          Raise e w2 \<Rightarrow>
                            if \<not> is_FileExistsError e then Raise e w2
                            else if tail = ''.'' then Ok () w2
                            else mkdir_leaf env name exist_ok w2
                        | Ok _ w2 \<Rightarrow>
                            if tail = ''.'' then Ok () w2
                            else mkdir_leaf env name exist_ok w2)
                  else mkdir_leaf env name exist_ok w1)
        else mkdir_leaf env name exist_ok w)"
  by pat_completeness auto

termination
  by (relation "measure (\<lambda>(env, name, exist_ok, w). length name)")
    (auto dest: split_name_shorter [OF sym])

declare makedirs.simps [simp del]

text \<open>Line 9: \<^verbatim>\<open>os.makedirs(ASSETS, exist_ok=True)\<close>.\<close>

definition prepare :: "env \<Rightarrow> world \<Rightarrow> unit res" where
  "prepare env w = makedirs env ASSETS True w"

subsection \<open>The script\<close>

text \<open>
  The whole file, top to bottom: the directory is prepared, then the loop and the summary
  run over \<open>images\<close>. Nothing catches an exception of \<open>prepare\<close>. The imports and the
  reconfiguration of standard output (lines 1 to 6) are taken to succeed.
\<close>

definition main :: "env \<Rightarrow> world \<Rightarrow> unit res" where
  "main env w = and_then (prepare env w) (\<lambda>_. batch env images)"



subsection \<open>What a run leaves behind\<close>

text \<open>Projections of the trace: the service invocations, the delays, the lines printed.\<close>

primrec service_calls :: "event list \<Rightarrow> (string \<times> gen_input) list" where
  "service_calls [] = []"
| "service_calls (ev # evs) =
     (case ev of Generate m inp \<Rightarrow> (m, inp) # service_calls evs | _ \<Rightarrow> service_calls evs)"

primrec sleeps :: "event list \<Rightarrow> nat list" where
  "sleeps [] = []"
| "sleeps (ev # evs) = (case ev of Sleep secs \<Rightarrow> secs # sleeps evs | _ \<Rightarrow> sleeps evs)"

primrec stdout :: "event list \<Rightarrow> string list" where
  "stdout [] = []"
| "stdout (ev # evs) = (case ev of Print s \<Rightarrow> s # stdout evs | _ \<Rightarrow> stdout evs)"

text \<open>The invocations and the delays, in the order they happened.\<close>

primrec pacing_trace :: "event list \<Rightarrow> event list" where
  "pacing_trace [] = []"
| "pacing_trace (ev # evs) =
     (case ev of
        Generate m inp \<Rightarrow> ev # pacing_trace evs
      | Sleep secs \<Rightarrow> ev # pacing_trace evs
      | _ \<Rightarrow> pacing_trace evs)"

text \<open>Everything but looking at the file system and printing.\<close>

primrec effects :: "event list \<Rightarrow> event list" where
  "effects [] = []"
| "effects (ev # evs) =
     (case ev of Stat p \<Rightarrow> effects evs | Print s \<Rightarrow> effects evs | _ \<Rightarrow> ev # effects evs)"

text \<open>The invocation the loop makes for an item, and the file it downloads to.\<close>

definition call_of :: "asset \<Rightarrow> string \<times> gen_input" where
  "call_of item = (case item of (filename, aspect, prompt) \<Rightarrow>
     (model_name, run_input prompt aspect))"

definition asset_path :: "asset \<Rightarrow> path" where
  "asset_path item = path_join ASSETS (fst item)"

text \<open>A list with a separator between consecutive elements, and none after the last.\<close>

fun separated :: "'a \<Rightarrow> 'a list \<Rightarrow> 'a list" where
  "separated s [] = []"
| "separated s [x] = [x]"
| "separated s (x # y # zs) = x # s # separated s (y # zs)"

text \<open>The environments the properties speak of.\<close>

definition console_ok :: "env \<Rightarrow> bool" where
  "console_ok env =
     ((\<forall>w s. stdout_err env w s = None) \<and> (\<forall>w secs. sleep_err env w secs = None))"

definition stat_ok :: "env \<Rightarrow> bool" where
  "stat_ok env = (\<forall>w p. stat_err env w p = None)"

definition service_ok :: "env \<Rightarrow> bool" where
  "service_ok env = (\<forall>w m inp. \<not> isl (service env w m inp))"

definition fetch_ok :: "env \<Rightarrow> bool" where
  "fetch_ok env = (\<forall>w url p. is_Fetched (fetch env w url p))"

text \<open>The line of the summary for one entry, read off the file system.\<close>

definition report_line :: "env \<Rightarrow> world \<Rightarrow> asset \<Rightarrow> string" where
  "report_line env w item =
     (case fs w (asset_path item) of
        None \<Rightarrow> missing_line (fst item)
      | Some nd \<Rightarrow> ok_line (fst item) (st_size env nd))"

definition is_fail_notice :: "string \<Rightarrow> bool" where
  "is_fail_notice s = (take 8 s = ''  FAIL: '')"

subsection \<open>Test doubles\<close>

text \<open>
  A scripted environment: the service fails at the invocations whose (zero-based)
  number is listed and returns a URL made from the prompt otherwise; a download delivers
  the URL's text as the body; the console, the clock and the file system never fail.
\<close>

definition scripted :: "nat list \<Rightarrow> env" where
  "scripted failing =
     \<lparr>service = (\<lambda>w m inp.
        if length (service_calls (trace w)) \<in> set failing
        then Inl (Exn Exception ''service unavailable'')
        else Inr (''https://img.test/'' @ in_prompt inp)),
      fetch = (\<lambda>w url p. Fetched url),
      stat_err = (\<lambda>w p. None),
      mkdir_err = (\<lambda>w p. None),
      stdout_err = (\<lambda>w s. None),
      sleep_err = (\<lambda>w secs. None),
      dir_size = 4096\<rparr>"

definition empty_world :: world where
  "empty_world = \<lparr>fs = Map.empty, trace = []\<rparr>"

text \<open>The list of the specification's example scenario.\<close>

definition two_items :: "asset list" where
  "two_items = [(''a.png'', ''1:1'', ''x''), (''b.png'', ''16:9'', ''y'')]"

text \<open>The service invocation of an item, as an event of the trace.\<close>

definition invocation :: "asset \<Rightarrow> event" where
  "invocation item = (case call_of item of (m, inp) \<Rightarrow> Generate m inp)"


text \<open>
  Standard output that breaks once \<open>k\<close> lines have been printed, and a delay that is
  always interrupted.
\<close>

definition broken_pipe :: "nat \<Rightarrow> env" where
  "broken_pipe k = (scripted [])\<lparr>stdout_err := (\<lambda>w s.
     if k \<le> length (stdout (trace w)) then Some (Exn OSError ''[Errno 32] Broken pipe'')
     else None)\<rparr>"

definition interrupted :: env where
  "interrupted = (scripted [])\<lparr>sleep_err := (\<lambda>w secs. Some (Exn Exception ''interrupted''))\<rparr>"

text \<open>A regular file at a path, and its size.\<close>

definition is_file :: "world \<Rightarrow> path \<Rightarrow> bool" where
  "is_file w p = (case fs w p of Some (File body) \<Rightarrow> True | _ \<Rightarrow> False)"

definition file_size :: "world \<Rightarrow> path \<Rightarrow> nat" where
  "file_size w p = (case fs w p of Some (File body) \<Rightarrow> length body | _ \<Rightarrow> 0)"

text \<open>A later run of the same service, whose downloads deliver other bytes.\<close>

definition rerun :: env where
  "rerun = (scripted [])\<lparr>fetch := (\<lambda>w url p. Fetched (''v2 '' @ url))\<rparr>"

text \<open>The directories on the way to a path: its prefixes that end before a separator.\<close>

definition ancestors :: "path \<Rightarrow> path list" where
  "ancestors p = [take i p. i \<leftarrow> [1..<length p], p ! i = CHR ''/'']"

text \<open>A file system in which every entry lies in a directory.\<close>

definition tree_ok :: "world \<Rightarrow> bool" where
  "tree_ok w = (\<forall>p. fs w p \<noteq> None \<longrightarrow> parent_ok w p)"

text \<open>
  What creating directories may do to a world: entries stay, new entries are directories,
  nothing is printed, generated or slept.
\<close>

definition extends :: "world \<Rightarrow> world \<Rightarrow> bool" where
  "extends w w' =
     ((\<forall>p nd. fs w p = Some nd \<longrightarrow> fs w' p = Some nd)
      \<and> (\<forall>p. fs w p = None \<longrightarrow> fs w' p = None \<or> fs w' p = Some Dir)
      \<and> (tree_ok w \<longrightarrow> tree_ok w')
      \<and> stdout (trace w') = stdout (trace w)
      \<and> pacing_trace (trace w') = pacing_trace (trace w))"

text \<open>A platform that refuses every \<^verbatim>\<open>mkdir\<close>.\<close>

definition read_only :: env where
  "read_only = (scripted [])\<lparr>mkdir_err := (\<lambda>w p. Some ''[Errno 13] Permission denied'')\<rparr>"

text \<open>
  A platform that refuses no \<^verbatim>\<open>mkdir\<close>, and a file system in which nothing but a
  directory lies on the way to \<open>ASSETS\<close>.
\<close>

definition mkdir_ok :: "env \<Rightarrow> bool" where
  "mkdir_ok env = (\<forall>w p. mkdir_err env w p = None)"

definition way_clear :: "world \<Rightarrow> bool" where
  "way_clear w = (\<forall>d\<in>set (ancestors ASSETS @ [ASSETS]). fs w d = None \<or> fs w d = Some Dir)"

subsection \<open>The module's namespace\<close>

text \<open>
  The functions above take the list as a value. The script itself keeps it in the module's
  namespace, under the name \<^verbatim>\<open>images\<close>, and reads it there: \<^verbatim>\<open>enumerate(images)\<close> when the
  loop starts, \<^verbatim>\<open>len(images)\<close> in every iteration (in the progress notice and in the
  test before the delay), \<^verbatim>\<open>images\<close> again when the summary starts; \<^verbatim>\<open>ASSETS\<close> is read in
  the same way wherever a path is joined. The functions below run the same statements on
  an explicit namespace. Every name the script binds is written to it: the loop targets
  \<^verbatim>\<open>i\<close>, \<^verbatim>\<open>filename\<close>, \<^verbatim>\<open>aspect\<close>, \<^verbatim>\<open>prompt\<close> and \<^verbatim>\<open>_\<close>, and \<^verbatim>\<open>output\<close>, \<^verbatim>\<open>url\<close>,
  \<^verbatim>\<open>filepath\<close>, \<^verbatim>\<open>size\<close> and \<^verbatim>\<open>e\<close> (which Python unbinds when the handler ends). A loop
  target is read back right after it is bound, so the value just bound is used; the two
  module-level names are looked up, and a name that is not bound (or not to a value of
  the expected kind) raises.
\<close>

datatype pyval = PStr string | PInt int | PAssets "asset list"

type_synonym namespace = "string \<rightharpoonup> pyval"

definition name_error :: "string \<Rightarrow> exn" where
  "name_error n = Exn Exception (''name '' @ [CHR 0x27] @ n @ [CHR 0x27] @ '' is not defined'')"

definition global_str :: "namespace \<Rightarrow> string \<Rightarrow> exn + string" where
  "global_str ns n = (case ns n of Some (PStr s) \<Rightarrow> Inr s | _ \<Rightarrow> Inl (name_error n))"

definition global_assets :: "namespace \<Rightarrow> string \<Rightarrow> exn + asset list" where
  "global_assets ns n = (case ns n of Some (PAssets xs) \<Rightarrow> Inr xs | _ \<Rightarrow> Inl (name_error n))"

text \<open>Lines 32 to 40, 31 to 42, 30 to 46 and 29 to 46 on the namespace.\<close>

definition try_body_ns :: "env \<Rightarrow> asset \<Rightarrow> namespace \<Rightarrow> world \<Rightarrow> namespace \<times> unit res" where
  "try_body_ns env item ns w =
     (case item of (filename, aspect, prompt) \<Rightarrow>
        (case replicate_run env model_name (run_input prompt aspect) w of
           Raise e w1 \<Rightarrow> (ns, Raise e w1)
         | Ok url w1 \<Rightarrow>
             let ns1 = ns(''output'' \<mapsto> PStr url, ''url'' \<mapsto> PStr url) in
             (case global_str ns1 ''ASSETS'' of
                Inl e \<Rightarrow> (ns1, Raise e w1)
              | Inr dir \<Rightarrow>
                  let filepath = path_join dir filename;
                      ns2 = ns1(''filepath'' \<mapsto> PStr filepath) in
                  (case urlretrieve env url filepath w1 of
                     Raise e w2 \<Rightarrow> (ns2, Raise e w2)
                   | Ok _ w2 \<Rightarrow>
                       (case getsize env filepath w2 of
                          Raise e w3 \<Rightarrow> (ns2, Raise e w3)
                        | Ok sz w3 \<Rightarrow>
                            (ns2(''size'' \<mapsto> PInt (int sz)),
                             print env (saved_line filename sz) w3))))))"

definition try_except_ns :: "env \<Rightarrow> asset \<Rightarrow> namespace \<Rightarrow> world \<Rightarrow> namespace \<times> unit res" where
  "try_except_ns env item ns w =
     (case try_body_ns env item ns w of
        (ns1, Ok u w') \<Rightarrow> (ns1, Ok u w')
      | (ns1, Raise e w') \<Rightarrow> (ns1(''e'' := None), print env (fail_line (fst item) e) w'))"

definition loop_body_ns ::
  "env \<Rightarrow> nat \<Rightarrow> asset \<Rightarrow> namespace \<Rightarrow> world \<Rightarrow> namespace \<times> unit res" where
  "loop_body_ns env i item ns w =
     (case item of (filename, aspect, prompt) \<Rightarrow>
        let ns1 = ns(''i'' \<mapsto> PInt (int i), ''filename'' \<mapsto> PStr filename,
                     ''aspect'' \<mapsto> PStr aspect, ''prompt'' \<mapsto> PStr prompt) in
        (case global_assets ns1 ''images'' of
           Inl e \<Rightarrow> (ns1, Raise e w)
         | Inr imgs \<Rightarrow>
             (case print env (progress_line i (length imgs) filename aspect) w of
                Raise e w1 \<Rightarrow> (ns1, Raise e w1)
              | Ok _ w1 \<Rightarrow>
                  (case try_except_ns env item ns1 w1 of
                     (ns2, Raise e w2) \<Rightarrow> (ns2, Raise e w2)
                   | (ns2, Ok _ w2) \<Rightarrow>
                       (case global_assets ns2 ''images'' of
                          Inl e \<Rightarrow> (ns2, Raise e w2)
                        | Inr imgs' \<Rightarrow> (ns2, pacing env i (length imgs') w2))))))"

fun for_loop_ns ::
  "env \<Rightarrow> (nat \<times> asset) list \<Rightarrow> namespace \<Rightarrow> world \<Rightarrow> namespace \<times> unit res" where
  "for_loop_ns env [] ns w = (ns, Ok () w)"
| "for_loop_ns env ((i, item) # rest) ns w =
     (case loop_body_ns env i item ns w of
        (ns', Raise e w') \<Rightarrow> (ns', Raise e w')
      | (ns', Ok _ w') \<Rightarrow> for_loop_ns env rest ns' w')"

definition generation_loop_ns :: "env \<Rightarrow> namespace \<Rightarrow> world \<Rightarrow> namespace \<times> unit res" where
  "generation_loop_ns env ns w =
     (case global_assets ns ''images'' of
        Inl e \<Rightarrow> (ns, Raise e w)
      | Inr imgs \<Rightarrow> for_loop_ns env (enumerate 0 imgs) ns w)"

text \<open>Lines 51 to 57 and 48 to 58 on the namespace.\<close>

definition summary_entry_ns ::
  "env \<Rightarrow> asset \<Rightarrow> namespace \<Rightarrow> world \<Rightarrow> namespace \<times> unit res" where
  "summary_entry_ns env item ns w =
     (case item of (filename, aspect, prompt) \<Rightarrow>
        let ns1 = ns(''filename'' \<mapsto> PStr filename, ''_'' \<mapsto> PStr prompt) in
        (case global_str ns1 ''ASSETS'' of
           Inl e \<Rightarrow> (ns1, Raise e w)
         | Inr dir \<Rightarrow>
             let filepath = path_join dir filename;
                 ns2 = ns1(''filepath'' \<mapsto> PStr filepath) in
             (case path_exists env filepath w of
                Raise e w1 \<Rightarrow> (ns2, Raise e w1)
              | Ok present w1 \<Rightarrow>
                  if present
                  then (case getsize env filepath w1 of
                          Raise e w2 \<Rightarrow> (ns2, Raise e w2)
                        | Ok sz w2 \<Rightarrow>
                            (ns2(''size'' \<mapsto> PInt (int sz)),
                             print env (ok_line filename sz) w2))
                  else (ns2, print env (missing_line filename) w1))))"

fun summary_loop_ns ::
  "env \<Rightarrow> asset list \<Rightarrow> namespace \<Rightarrow> world \<Rightarrow> namespace \<times> unit res" where
  "summary_loop_ns env [] ns w = (ns, Ok () w)"
| "summary_loop_ns env (item # rest) ns w =
     (case summary_entry_ns env item ns w of
        (ns', Raise e w') \<Rightarrow> (ns', Raise e w')
      | (ns', Ok _ w') \<Rightarrow> summary_loop_ns env rest ns' w')"

definition summary_ns :: "env \<Rightarrow> namespace \<Rightarrow> world \<Rightarrow> namespace \<times> unit res" where
  "summary_ns env ns w =
     (case and_then (print env ([CHR 0x0A] @ rule_line) w) (\<lambda>_ w1.
             and_then (print env ''SUMMARY'' w1) (\<lambda>_. print env rule_line)) of
        Raise e w3 \<Rightarrow> (ns, Raise e w3)
      | Ok _ w3 \<Rightarrow>
          (case global_assets ns ''images'' of
             Inl e \<Rightarrow> (ns, Raise e w3)
           | Inr imgs \<Rightarrow>
               (case summary_loop_ns env imgs ns w3 of
                  (ns', Raise e w4) \<Rightarrow> (ns', Raise e w4)
                | (ns', Ok _ w4) \<Rightarrow> (ns', print env ''DONE'' w4))))"

text \<open>
  The whole file: line 8 binds \<^verbatim>\<open>ASSETS\<close>, line 9 prepares the directory, lines 11 to 27
  bind \<^verbatim>\<open>images\<close>, then the loop and the summary run.
\<close>

definition script :: "env \<Rightarrow> world \<Rightarrow> namespace \<times> unit res" where
  "script env w =
     (let ns1 = [''ASSETS'' \<mapsto> PStr ASSETS] in
      (case global_str ns1 ''ASSETS'' of
         Inl e \<Rightarrow> (ns1, Raise e w)
       | Inr dir \<Rightarrow>
           (case makedirs env dir True w of
              Raise e w1 \<Rightarrow> (ns1, Raise e w1)
            | Ok _ w1 \<Rightarrow>
                let ns2 = ns1(''images'' \<mapsto> PAssets images) in
                (case generation_loop_ns env ns2 w1 of
                   (ns3, Raise e w2) \<Rightarrow> (ns3, Raise e w2)
                 | (ns3, Ok _ w2) \<Rightarrow> summary_ns env ns3 w2))))"

section \<open>Properties\<close>

subsection \<open>Traces and sequencing\<close>

lemma fs_logged [simp]: "fs (logged ev w) = fs w"
  by (simp add: logged_def)

lemma trace_logged [simp]: "trace (logged ev w) = trace w @ [ev]"
  by (simp add: logged_def)

lemma service_calls_append [simp]:
  "service_calls (xs @ ys) = service_calls xs @ service_calls ys"
  by (induction xs) (simp_all split: event.splits)

lemma sleeps_append [simp]: "sleeps (xs @ ys) = sleeps xs @ sleeps ys"
  by (induction xs) (simp_all split: event.splits)

lemma stdout_append [simp]: "stdout (xs @ ys) = stdout xs @ stdout ys"
  by (induction xs) (simp_all split: event.splits)

lemma pacing_trace_append [simp]: "pacing_trace (xs @ ys) = pacing_trace xs @ pacing_trace ys"
  by (induction xs) (simp_all split: event.splits)

lemma effects_append [simp]: "effects (xs @ ys) = effects xs @ effects ys"
  by (induction xs) (simp_all split: event.splits)

lemma and_then_Ok [simp]: "and_then (Ok x w) k = k x w"
  by (simp add: and_then_def)

lemma and_then_Raise [simp]: "and_then (Raise e w) k = Raise e w"
  by (simp add: and_then_def)

lemma print_console_ok: "console_ok env \<Longrightarrow> print env s w = Ok () (logged (Print s) w)"
  by (simp add: console_ok_def print_def)

lemma sleep_console_ok: "console_ok env \<Longrightarrow> sleep env secs w = Ok () (logged (Sleep secs) w)"
  by (simp add: console_ok_def sleep_def)

subsection \<open>One item, and the loop over the items\<close>

lemmas item_defs = try_except_def try_body_def replicate_run_def urlretrieve_def getsize_def
  os_stat_def print_def and_then_def Let_def

lemma try_except_calls:
  "service_calls (trace (world_of (try_except env item w))) =
     service_calls (trace w) @ [call_of item]"
  by (cases item)
    (auto simp: item_defs call_of_def split: sum.splits download.splits option.splits)

lemma try_except_pacing_trace:
  "pacing_trace (trace (world_of (try_except env item w))) =
     pacing_trace (trace w) @ [Generate (fst (call_of item)) (snd (call_of item))]"
  by (cases item)
    (auto simp: item_defs call_of_def split: sum.splits download.splits option.splits)

lemma try_except_sleeps:
  "sleeps (trace (world_of (try_except env item w))) = sleeps (trace w)"
  by (cases item)
    (auto simp: item_defs call_of_def split: sum.splits download.splits option.splits)

lemma try_except_is_Ok: "console_ok env \<Longrightarrow> is_Ok (try_except env item w)"
  by (cases item)
    (auto simp: item_defs console_ok_def split: sum.splits download.splits option.splits)

lemma pacing_console_ok:
  "console_ok env \<Longrightarrow>
     pacing env i n w =
       Ok () (if int i < int n - 1 then logged (Sleep 65) (logged (Print waiting_line) w) else w)"
  by (simp add: pacing_def print_console_ok sleep_console_ok)

lemma pacing_calls:
  "service_calls (trace (world_of (pacing env i n w))) = service_calls (trace w)"
  by (auto simp: pacing_def print_def sleep_def and_then_def split: option.splits)

lemma loop_body_console_ok:
  assumes "console_ok env"
  obtains w2 where
    "try_except env item (logged (Print (progress_line i n (fst item) (fst (snd item)))) w)
       = Ok () w2"
    and "loop_body env n i item w =
       Ok () (if int i < int n - 1 then logged (Sleep 65) (logged (Print waiting_line) w2)
              else w2)"
proof -
  let ?w1 = "logged (Print (progress_line i n (fst item) (fst (snd item)))) w"
  from try_except_is_Ok [OF assms, of item ?w1]
  obtain u w2 where t: "try_except env item ?w1 = Ok u w2"
    by (cases "try_except env item ?w1") auto
  then have "loop_body env n i item w =
       Ok () (if int i < int n - 1 then logged (Sleep 65) (logged (Print waiting_line) w2)
              else w2)"
    using assms by (simp add: loop_body_def print_console_ok pacing_console_ok)
  with t that show ?thesis by simp
qed

lemma for_loop_step:
  "loop_body env n i item w = Ok u w' \<Longrightarrow>
     for_loop env n ((i, item) # rest) w = for_loop env n rest w'"
  by simp

lemma loop_body_calls:
  "service_calls (trace (world_of (loop_body env n i item w))) =
     service_calls (trace w) @
       (if stdout_err env w (progress_line i n (fst item) (fst (snd item))) = None
        then [call_of item] else [])"
proof (cases "stdout_err env w (progress_line i n (fst item) (fst (snd item)))")
  case None
  let ?w1 = "logged (Print (progress_line i n (fst item) (fst (snd item)))) w"
  have "service_calls (trace (world_of (try_except env item ?w1))) =
      service_calls (trace w) @ [call_of item]"
    by (simp add: try_except_calls)
  then show ?thesis using None pacing_calls
    by (cases "try_except env item ?w1") (simp_all add: loop_body_def print_def)
next
  case (Some e)
  then show ?thesis by (simp add: loop_body_def print_def)
qed

lemma for_loop_calls_prefix:
  "\<exists>k\<le>length xs. service_calls (trace (world_of (for_loop env n (enumerate i xs) w))) =
     service_calls (trace w) @ map call_of (take k xs)"
proof (induction xs arbitrary: i w)
  case Nil
  then show ?case by simp
next
  case (Cons item xs)
  show ?case
  proof (cases "loop_body env n i item w")
    case (Ok u w')
    then have p: "stdout_err env w (progress_line i n (fst item) (fst (snd item))) = None"
      by (auto simp: loop_body_def print_def split: option.splits)
    from Cons.IH [of "Suc i" w'] obtain k where k: "k \<le> length xs"
      "service_calls (trace (world_of (for_loop env n (enumerate (Suc i) xs) w'))) =
         service_calls (trace w') @ map call_of (take k xs)" by blast
    have "service_calls (trace w') = service_calls (trace w) @ [call_of item]"
      using loop_body_calls [of env n i item w] Ok p by simp
    with k Ok have "service_calls (trace (world_of (for_loop env n (enumerate i (item # xs)) w)))
        = service_calls (trace w) @ map call_of (take (Suc k) (item # xs))"
      by simp
    moreover have "Suc k \<le> length (item # xs)" using k by simp
    ultimately show ?thesis by blast
  next
    case (Raise e w')
    have "service_calls (trace w') = service_calls (trace w) @ map call_of (take 0 (item # xs))
        \<or> service_calls (trace w') = service_calls (trace w) @ map call_of (take 1 (item # xs))"
      using loop_body_calls [of env n i item w] Raise by (simp split: if_splits)
    moreover have fl: "world_of (for_loop env n (enumerate i (item # xs)) w) = w'"
      using Raise by simp
    ultimately show ?thesis
    proof (elim disjE)
      assume "service_calls (trace w') =
        service_calls (trace w) @ map call_of (take 0 (item # xs))"
      then show ?thesis using fl by (intro exI [of _ 0]) simp
    next
      assume "service_calls (trace w') =
        service_calls (trace w) @ map call_of (take 1 (item # xs))"
      then show ?thesis using fl by (intro exI [of _ 1]) simp
    qed
  qed
qed

lemma for_loop_console_ok:
  assumes "console_ok env"
  shows "is_Ok (for_loop env n (enumerate i xs) w) \<and>
    service_calls (trace (world_of (for_loop env n (enumerate i xs) w))) =
      service_calls (trace w) @ map call_of xs"
proof (induction xs arbitrary: i w)
  case Nil
  then show ?case by simp
next
  case (Cons item xs)
  from loop_body_console_ok [OF assms, of item i n w]
  obtain w2 where t: "try_except env item
      (logged (Print (progress_line i n (fst item) (fst (snd item)))) w) = Ok () w2"
    and b: "loop_body env n i item w =
       Ok () (if int i < int n - 1 then logged (Sleep 65) (logged (Print waiting_line) w2)
              else w2)" by blast
  let ?w3 = "if int i < int n - 1 then logged (Sleep 65) (logged (Print waiting_line) w2) else w2"
  have c: "service_calls (trace ?w3) = service_calls (trace w) @ [call_of item]"
    using try_except_calls [of env item
      "logged (Print (progress_line i n (fst item) (fst (snd item)))) w"] t by simp
  show ?case using Cons.IH [of "Suc i" ?w3] b c by simp
qed

text \<open>
  C1. In every run the service invocations are those of the first \<open>k\<close> items of the list,
  one each, in list order (no item is invoked twice, skipped or reordered, whatever
  failed before). When the notices and the delay themselves do not raise, the loop
  completes and \<open>k\<close> is the length of the list, whichever items failed: the service,
  the download and the size read-back are unconstrained.
\<close>

theorem service_invoked_once_per_item:
  "(\<exists>k\<le>length imgs.
      service_calls (trace (world_of (generation_loop env imgs w))) =
        service_calls (trace w) @ map call_of (take k imgs))
   \<and> (console_ok env \<longrightarrow>
        is_Ok (generation_loop env imgs w)
        \<and> service_calls (trace (world_of (generation_loop env imgs w))) =
            service_calls (trace w) @ map call_of imgs)"
  unfolding generation_loop_def
  using for_loop_calls_prefix [of imgs env "length imgs" 0 w]
    for_loop_console_ok [of env "length imgs" 0 imgs w]
  by blast

theorem service_invoked_once_per_item_witness:
  "console_ok (scripted [0])
   \<and> isl (service (scripted [0]) empty_world model_name (run_input ''x'' ''1:1''))
   \<and> is_Ok (generation_loop (scripted [0]) two_items empty_world)
   \<and> service_calls (trace (world_of (generation_loop (scripted [0]) two_items empty_world))) =
       [(model_name, run_input ''x'' ''1:1''), (model_name, run_input ''y'' ''16:9'')]"
proof -
  have h: "console_ok (scripted [0])"
    by (simp add: console_ok_def scripted_def)
  have f: "isl (service (scripted [0]) empty_world model_name (run_input ''x'' ''1:1''))"
    by (simp add: scripted_def empty_world_def)
  from service_invoked_once_per_item [of two_items "scripted [0]" empty_world] h f
  show ?thesis
    by (simp add: two_items_def call_of_def empty_world_def)
qed

subsection \<open>The pacing delay\<close>

lemma separated_Cons:
  "separated s (x # xs) = (if xs = [] then [x] else x # s # separated s xs)"
  by (cases xs) simp_all

lemma try_except_pacing_trace':
  "pacing_trace (trace (world_of (try_except env item w))) =
     pacing_trace (trace w) @ [invocation item]"
  by (simp add: try_except_pacing_trace invocation_def split: prod.splits)

lemma for_loop_pacing:
  assumes "console_ok env"
  shows "n = i + length xs \<Longrightarrow>
    sleeps (trace (world_of (for_loop env n (enumerate i xs) w))) =
      sleeps (trace w) @ replicate (length xs - 1) 65
    \<and> pacing_trace (trace (world_of (for_loop env n (enumerate i xs) w))) =
      pacing_trace (trace w) @ separated (Sleep 65) (map invocation xs)"
proof (induction xs arbitrary: i w)
  case Nil
  then show ?case by simp
next
  case (Cons item xs)
  let ?w1 = "logged (Print (progress_line i n (fst item) (fst (snd item)))) w"
  from loop_body_console_ok [OF assms, of item i n w]
  obtain w2 where t: "try_except env item ?w1 = Ok () w2"
    and b: "loop_body env n i item w =
       Ok () (if int i < int n - 1 then logged (Sleep 65) (logged (Print waiting_line) w2)
              else w2)" by blast
  let ?w3 = "if int i < int n - 1 then logged (Sleep 65) (logged (Print waiting_line) w2) else w2"
  have last: "int i < int n - 1 \<longleftrightarrow> xs \<noteq> []"
    using Cons.prems by (cases xs) auto
  have s2: "sleeps (trace w2) = sleeps (trace w)"
    using try_except_sleeps [of env item ?w1] t by simp
  have p2: "pacing_trace (trace w2) = pacing_trace (trace w) @ [invocation item]"
    using try_except_pacing_trace' [of env item ?w1] t by simp
  have ih: "sleeps (trace (world_of (for_loop env n (enumerate (Suc i) xs) ?w3))) =
      sleeps (trace ?w3) @ replicate (length xs - 1) 65
    \<and> pacing_trace (trace (world_of (for_loop env n (enumerate (Suc i) xs) ?w3))) =
      pacing_trace (trace ?w3) @ separated (Sleep 65) (map invocation xs)"
    using Cons.IH [of "Suc i" ?w3] Cons.prems by simp
  have fl: "for_loop env n (enumerate i (item # xs)) w = for_loop env n (enumerate (Suc i) xs) ?w3"
    using b by simp
  show ?case
  proof (cases "xs = []")
    case True
    then show ?thesis using fl ih last s2 p2 by simp
  next
    case False
    then have r: "65 # replicate (length xs - 1) 65 = replicate (length xs) (65::nat)"
      by (cases xs) simp_all
    show ?thesis using False fl ih last s2 p2 r
      by (simp add: separated_Cons)
  qed
qed

text \<open>
  C2. When the notices and the delay do not raise, a run over \<open>n\<close> items sleeps
  \<open>n - 1\<close> times (not at all for \<open>n \<le> 1\<close>: the subtraction on \<open>nat\<close> stops at zero), 65
  seconds each time, and the delays
  separate consecutive invocations: one after every item but the last, none after the
  last. The outcomes of the items are unconstrained, so a failed item is followed by its
  delay like a successful one.
\<close>

theorem pacing_delay_between_items:
  assumes "console_ok env"
  shows "sleeps (trace (world_of (generation_loop env imgs w))) =
      sleeps (trace w) @ replicate (length imgs - 1) 65
    \<and> pacing_trace (trace (world_of (generation_loop env imgs w))) =
      pacing_trace (trace w) @ separated (Sleep 65) (map invocation imgs)"
  unfolding generation_loop_def
  using for_loop_pacing [OF assms, of "length imgs" 0 imgs w] by simp

theorem pacing_delay_between_items_witness:
  "console_ok (scripted [0])
   \<and> sleeps (trace (world_of (generation_loop (scripted [0]) two_items empty_world))) = [65]
   \<and> pacing_trace (trace (world_of (generation_loop (scripted [0]) two_items empty_world))) =
       [Generate model_name (run_input ''x'' ''1:1''), Sleep 65,
        Generate model_name (run_input ''y'' ''16:9'')]"
proof -
  have h: "console_ok (scripted [0])"
    by (simp add: console_ok_def scripted_def)
  from pacing_delay_between_items [OF h, of two_items empty_world] h
  show ?thesis
    by (simp add: two_items_def invocation_def call_of_def empty_world_def)
qed

subsection \<open>Failures inside the guarded block\<close>

lemma world_literal:
  "(w::world)\<lparr>trace := t\<rparr> = \<lparr>fs = fs w, trace = t\<rparr>"
  "(w::world)\<lparr>fs := f\<rparr> = \<lparr>fs = f, trace = trace w\<rparr>"
  by (cases w; simp)+





lemma loop_body_after_handler:
  "stdout_err env w0 (progress_line i n (fst item) (fst (snd item))) = None \<Longrightarrow>
   try_except env item (logged (Print (progress_line i n (fst item) (fst (snd item)))) w0)
     = Ok () w2 \<Longrightarrow>
     loop_body env n i item w0 = pacing env i n w2"
  by (simp add: loop_body_def print_def)




subsection \<open>Failures outside the guarded block\<close>

lemma for_loop_append:
  "for_loop env n (xs @ ys) w =
     (case for_loop env n xs w of
        Raise e w' \<Rightarrow> Raise e w'
      | Ok u w' \<Rightarrow> for_loop env n ys w')"
proof (induction xs arbitrary: w)
  case Nil
  then show ?case by simp
next
  case (Cons x xs)
  then show ?case by (cases x) (simp split: res.splits)
qed

lemma enumerate_at:
  assumes "j < length xs"
  shows "enumerate 0 xs =
    enumerate 0 (take j xs) @ (j, xs ! j) # enumerate (Suc j) (drop (Suc j) xs)"
proof -
  have "enumerate 0 xs = enumerate 0 (take j xs @ xs ! j # drop (Suc j) xs)"
    using assms by (simp add: id_take_nth_drop [symmetric])
  also have "\<dots> = enumerate 0 (take j xs) @ (j, xs ! j) # enumerate (Suc j) (drop (Suc j) xs)"
    using assms by (simp add: enumerate_append_eq min_def)
  finally show ?thesis .
qed

lemma generation_loop_at:
  assumes "j < length imgs"
    and "for_loop env (length imgs) (enumerate 0 (take j imgs)) w0 = Ok u w"
  shows "generation_loop env imgs w0 =
    for_loop env (length imgs) ((j, imgs ! j) # enumerate (Suc j) (drop (Suc j) imgs)) w"
  using assms(2)
  by (simp add: generation_loop_def enumerate_at [OF assms(1)] for_loop_append
      del: for_loop.simps)

lemma try_except_escapes:
  "try_except env item w = Raise e w1 \<Longrightarrow>
     \<exists>e0. try_body env item w = Raise e0 w1 \<and> stdout_err env w1 (fail_line (fst item) e0) = Some e"
  by (cases "try_body env item w")
    (auto simp: try_except_def print_def split: option.splits)

lemma try_body_notice_error:
  "call_of item = (m, inp) \<Longrightarrow> service env w m inp = Inr url \<Longrightarrow>
   fetch env \<lparr>fs = fs w, trace = trace w @ [Generate m inp]\<rparr> url (asset_path item)
     = Fetched body \<Longrightarrow>
   stat_err env \<lparr>fs = (fs w)(asset_path item \<mapsto> File body),
                 trace = trace w @ [Generate m inp, Retrieve url (asset_path item)]\<rparr>
     (asset_path item) = None \<Longrightarrow>
   stdout_err env \<lparr>fs = (fs w)(asset_path item \<mapsto> File body),
        trace = trace w @ [Generate m inp, Retrieve url (asset_path item),
                           Stat (asset_path item)]\<rparr>
     (saved_line (fst item) (length body)) = Some e \<Longrightarrow>
     try_body env item w =
       Raise e \<lparr>fs = (fs w)(asset_path item \<mapsto> File body),
          trace = trace w @ [Generate m inp, Retrieve url (asset_path item),
                             Stat (asset_path item)]\<rparr>"
  by (cases item)
    (auto simp: try_body_def replicate_run_def urlretrieve_def getsize_def os_stat_def
      call_of_def asset_path_def logged_def world_literal Let_def st_size_def print_def)

lemma loop_body_progress_error:
  "stdout_err env w (progress_line i n (fst item) (fst (snd item))) = Some e \<Longrightarrow>
     loop_body env n i item w = Raise e w"
  by (simp add: loop_body_def print_def)

lemma pacing_notice_error:
  "int i < int n - 1 \<Longrightarrow> stdout_err env w waiting_line = Some e \<Longrightarrow>
     pacing env i n w = Raise e w"
  by (simp add: pacing_def print_def)

lemma pacing_sleep_error:
  "int i < int n - 1 \<Longrightarrow> stdout_err env w waiting_line = None \<Longrightarrow>
   sleep_err env (logged (Print waiting_line) w) 65 = Some e \<Longrightarrow>
     pacing env i n w = Raise e (logged (Sleep 65) (logged (Print waiting_line) w))"
  by (simp add: pacing_def print_def sleep_def)

text \<open>
  C10. The handler guards the service call, the download, the size read-back and the
  success notice only. Suppose the items before item \<open>j\<close> have been processed. If
  printing the progress notice of item \<open>j\<close> raises, the run ends there with that
  exception: the item is not generated, no later item is processed and no summary is
  printed. The same holds when, after the item, printing the waiting notice or the delay
  itself raises. An exception leaves the guarded statement only when the handler's own
  notice cannot be printed; a success notice that cannot be printed is an error of the
  guarded block like the others.
\<close>

theorem failures_outside_handler_abort:
  assumes "j < length imgs"
    and "for_loop env (length imgs) (enumerate 0 (take j imgs)) w0 = Ok () w"
    and "progress = progress_line j (length imgs) (fst (imgs ! j)) (fst (snd (imgs ! j)))"
  shows
    "(stdout_err env w progress = Some e \<longrightarrow> batch env imgs w0 = Raise e w)
     \<and> (stdout_err env w progress = None
          \<and> try_except env (imgs ! j) (logged (Print progress) w) = Ok () w2
          \<and> int j < int (length imgs) - 1
          \<and> stdout_err env w2 waiting_line = Some e \<longrightarrow>
        batch env imgs w0 = Raise e w2)
     \<and> (stdout_err env w progress = None
          \<and> try_except env (imgs ! j) (logged (Print progress) w) = Ok () w2
          \<and> int j < int (length imgs) - 1
          \<and> stdout_err env w2 waiting_line = None
          \<and> sleep_err env (logged (Print waiting_line) w2) 65 = Some e \<longrightarrow>
        batch env imgs w0 = Raise e (logged (Sleep 65) (logged (Print waiting_line) w2)))
     \<and> (try_except env item w' = Raise e w1 \<longrightarrow>
          (\<exists>e0. try_body env item w' = Raise e0 w1
             \<and> stdout_err env w1 (fail_line (fst item) e0) = Some e))
     \<and> (call_of item = (m, inp) \<and> service env w' m inp = Inr url
          \<and> fetch env \<lparr>fs = fs w', trace = trace w' @ [Generate m inp]\<rparr> url (asset_path item)
              = Fetched body
          \<and> stat_err env \<lparr>fs = (fs w')(asset_path item \<mapsto> File body),
                trace = trace w' @ [Generate m inp, Retrieve url (asset_path item)]\<rparr>
              (asset_path item) = None
          \<and> stdout_err env \<lparr>fs = (fs w')(asset_path item \<mapsto> File body),
                trace = trace w' @ [Generate m inp, Retrieve url (asset_path item),
                                    Stat (asset_path item)]\<rparr>
              (saved_line (fst item) (length body)) = Some e \<longrightarrow>
        try_body env item w' =
          Raise e \<lparr>fs = (fs w')(asset_path item \<mapsto> File body),
             trace = trace w' @ [Generate m inp, Retrieve url (asset_path item),
                                 Stat (asset_path item)]\<rparr>)"
proof -
  let ?rest = "enumerate (Suc j) (drop (Suc j) imgs)"
  have gl: "generation_loop env imgs w0 = for_loop env (length imgs) ((j, imgs ! j) # ?rest) w"
    using generation_loop_at [OF assms(1,2)] .
  have a: "stdout_err env w progress = Some e \<Longrightarrow> batch env imgs w0 = Raise e w"
    using gl loop_body_progress_error [of env w j "length imgs" "imgs ! j" e] assms(3)
    by (simp add: batch_def)
  have body: "stdout_err env w progress = None \<Longrightarrow>
      try_except env (imgs ! j) (logged (Print progress) w) = Ok () w2 \<Longrightarrow>
      loop_body env (length imgs) j (imgs ! j) w = pacing env j (length imgs) w2"
    using loop_body_after_handler [of env w j "length imgs" "imgs ! j" w2] assms(3) by simp
  have b: "stdout_err env w progress = None \<Longrightarrow>
      try_except env (imgs ! j) (logged (Print progress) w) = Ok () w2 \<Longrightarrow>
      int j < int (length imgs) - 1 \<Longrightarrow> stdout_err env w2 waiting_line = Some e \<Longrightarrow>
      batch env imgs w0 = Raise e w2"
    using gl body pacing_notice_error [of j "length imgs" env w2 e]
    by (simp add: batch_def)
  have c: "stdout_err env w progress = None \<Longrightarrow>
      try_except env (imgs ! j) (logged (Print progress) w) = Ok () w2 \<Longrightarrow>
      int j < int (length imgs) - 1 \<Longrightarrow> stdout_err env w2 waiting_line = None \<Longrightarrow>
      sleep_err env (logged (Print waiting_line) w2) 65 = Some e \<Longrightarrow>
      batch env imgs w0 = Raise e (logged (Sleep 65) (logged (Print waiting_line) w2))"
    using gl body pacing_sleep_error [of j "length imgs" env w2 e]
    by (simp add: batch_def)
  show ?thesis
    using a b c try_except_escapes [of env item w' e w1]
      try_body_notice_error [of item m inp env w' url body e]
    by blast
qed


lemmas run_defs = loop_body_def pacing_def try_except_def try_body_def replicate_run_def
  urlretrieve_def getsize_def os_stat_def st_size_def print_def sleep_def logged_def Let_def
  world_literal

theorem failures_outside_handler_abort_witness:
  "batch (broken_pipe 3) two_items empty_world =
     Raise (Exn OSError ''[Errno 32] Broken pipe'')
       \<lparr>fs = [asset_path (''a.png'', ''1:1'', ''x'') \<mapsto> File ''https://img.test/x''],
        trace = [Print ([CHR 0x0A] @ ''[1/2] Generating a.png (1:1)...''),
                 Generate model_name (run_input ''x'' ''1:1''),
                 Retrieve ''https://img.test/x'' (asset_path (''a.png'', ''1:1'', ''x'')),
                 Stat (asset_path (''a.png'', ''1:1'', ''x'')),
                 Print ''  OK Saved: a.png (0 KB)'', Print ''  Waiting 65s...'', Sleep 65]\<rparr>
   \<and> batch interrupted two_items empty_world =
     Raise (Exn Exception ''interrupted'')
       \<lparr>fs = [asset_path (''a.png'', ''1:1'', ''x'') \<mapsto> File ''https://img.test/x''],
        trace = [Print ([CHR 0x0A] @ ''[1/2] Generating a.png (1:1)...''),
                 Generate model_name (run_input ''x'' ''1:1''),
                 Retrieve ''https://img.test/x'' (asset_path (''a.png'', ''1:1'', ''x'')),
                 Stat (asset_path (''a.png'', ''1:1'', ''x'')),
                 Print ''  OK Saved: a.png (0 KB)'', Print ''  Waiting 65s...'', Sleep 65]\<rparr>"
proof -
  let ?a = "(''a.png'', ''1:1'', ''x'') :: asset"
  let ?w2 = "\<lparr>fs = [asset_path ?a \<mapsto> File ''https://img.test/x''],
        trace = [Print ([CHR 0x0A] @ ''[1/2] Generating a.png (1:1)...''),
                 Generate model_name (run_input ''x'' ''1:1''),
                 Retrieve ''https://img.test/x'' (asset_path ?a),
                 Stat (asset_path ?a),
                 Print ''  OK Saved: a.png (0 KB)'']\<rparr>"
  let ?w = "\<lparr>fs = [asset_path ?a \<mapsto> File ''https://img.test/x''],
        trace = [Print ([CHR 0x0A] @ ''[1/2] Generating a.png (1:1)...''),
                 Generate model_name (run_input ''x'' ''1:1''),
                 Retrieve ''https://img.test/x'' (asset_path ?a),
                 Stat (asset_path ?a),
                 Print ''  OK Saved: a.png (0 KB)'', Print ''  Waiting 65s...'', Sleep 65]\<rparr>"
  let ?pipe = "Exn OSError ''[Errno 32] Broken pipe''"
  let ?intr = "Exn Exception ''interrupted''"
  have j1: "1 < length two_items" and j0: "0 < length two_items"
    by (simp_all add: two_items_def)
  have before1: "for_loop (broken_pipe 3) (length two_items) (enumerate 0 (take 1 two_items))
      empty_world = Ok () ?w"
    by (simp add: two_items_def broken_pipe_def scripted_def empty_world_def run_defs
        asset_path_def run_input_def progress_line_def saved_line_def waiting_line_def
        str_nat.simps)
  have fails1: "stdout_err (broken_pipe 3) ?w
      (progress_line 1 (length two_items) (fst (two_items ! 1)) (fst (snd (two_items ! 1))))
        = Some ?pipe"
    by (simp add: broken_pipe_def)
  have first: "batch (broken_pipe 3) two_items empty_world = Raise ?pipe ?w"
    using failures_outside_handler_abort [OF j1 before1 refl, where e = ?pipe] fails1
    by blast
  have before0: "for_loop interrupted (length two_items) (enumerate 0 (take 0 two_items))
      empty_world = Ok () empty_world"
    by simp
  let ?p = "progress_line 0 (length two_items) (fst (two_items ! 0)) (fst (snd (two_items ! 0)))"
  have ok0: "stdout_err interrupted empty_world ?p = None"
    by (simp add: interrupted_def scripted_def)
  have item0: "try_except interrupted (two_items ! 0) (logged (Print ?p) empty_world) = Ok () ?w2"
    by (simp add: two_items_def interrupted_def scripted_def empty_world_def run_defs
        asset_path_def run_input_def progress_line_def saved_line_def str_nat.simps)
  have more: "int 0 < int (length two_items) - 1"
    by (simp add: two_items_def)
  have ok1: "stdout_err interrupted ?w2 waiting_line = None"
    by (simp add: interrupted_def scripted_def)
  have fails0: "sleep_err interrupted (logged (Print waiting_line) ?w2) 65 = Some ?intr"
    by (simp add: interrupted_def)
  have "batch interrupted two_items empty_world =
      Raise ?intr (logged (Sleep 65) (logged (Print waiting_line) ?w2))"
    using failures_outside_handler_abort [OF j0 before0 refl, where e = ?intr and ?w2.0 = ?w2]
      ok0 item0 more ok1 fails0
    by blast
  then have second: "batch interrupted two_items empty_world = Raise ?intr ?w"
    by (simp add: logged_def waiting_line_def)
  from first second show ?thesis by simp
qed

subsection \<open>The summary pass\<close>

lemmas summary_defs = summary_entry_def path_exists_def getsize_def os_stat_def print_def
  and_then_def Let_def

lemma summary_entry_frame:
  "fs (world_of (summary_entry env item w)) = fs w
   \<and> effects (trace (world_of (summary_entry env item w))) = effects (trace w)"
  by (auto simp: summary_defs split: option.splits)

lemma summary_loop_frame:
  "fs (world_of (summary_loop env imgs w)) = fs w
   \<and> effects (trace (world_of (summary_loop env imgs w))) = effects (trace w)"
proof (induction imgs arbitrary: w)
  case Nil
  then show ?case by simp
next
  case (Cons item imgs)
  show ?case
  proof (cases "summary_entry env item w")
    case (Ok u w')
    then show ?thesis
      using summary_entry_frame [of env item w] Cons.IH [of w'] by simp
  next
    case (Raise e w')
    then show ?thesis
      using summary_entry_frame [of env item w] by simp
  qed
qed

lemma print_frame:
  "fs (world_of (print env s w)) = fs w
   \<and> effects (trace (world_of (print env s w))) = effects (trace w)"
  by (simp add: print_def split: option.splits)

lemma and_then_frame:
  assumes "fs (world_of r) = fs w \<and> effects (trace (world_of r)) = effects (trace w)"
    and "\<And>x w1. fs (world_of (k x w1)) = fs w1
        \<and> effects (trace (world_of (k x w1))) = effects (trace w1)"
  shows "fs (world_of (and_then r k)) = fs w
        \<and> effects (trace (world_of (and_then r k))) = effects (trace w)"
  using assms by (cases r) (simp_all)

lemma summary_frame:
  "fs (world_of (summary env imgs w)) = fs w
   \<and> effects (trace (world_of (summary env imgs w))) = effects (trace w)"
  unfolding summary_def
  by (intro and_then_frame print_frame summary_loop_frame)

lemma summary_entry_console_ok:
  assumes "console_ok env" and "stat_ok env"
  shows "\<exists>w'. summary_entry env item w = Ok () w' \<and>
     stdout (trace w') = stdout (trace w) @ [report_line env w item]"
proof (cases "fs w (asset_path item)")
  case None
  then have "summary_entry env item w =
      Ok () (logged (Print (missing_line (fst item))) (logged (Stat (asset_path item)) w))"
    using assms
    by (simp add: summary_defs console_ok_def stat_ok_def asset_path_def)
  then show ?thesis using None by (simp add: report_line_def)
next
  case (Some nd)
  then have "summary_entry env item w =
      Ok () (logged (Print (ok_line (fst item) (st_size env nd)))
        (logged (Stat (asset_path item)) (logged (Stat (asset_path item)) w)))"
    using assms
    by (simp add: summary_defs console_ok_def stat_ok_def asset_path_def)
  then show ?thesis using Some by (simp add: report_line_def)
qed

lemma summary_loop_console_ok:
  assumes "console_ok env" and "stat_ok env"
  shows "is_Ok (summary_loop env imgs w) \<and>
     stdout (trace (world_of (summary_loop env imgs w))) =
       stdout (trace w) @ map (report_line env w) imgs"
proof (induction imgs arbitrary: w)
  case Nil
  then show ?case by simp
next
  case (Cons item imgs)
  from summary_entry_console_ok [OF assms, of item w]
  obtain w' where e: "summary_entry env item w = Ok () w'"
    and s: "stdout (trace w') = stdout (trace w) @ [report_line env w item]" by blast
  have "fs w' = fs w" using summary_entry_frame [of env item w] e by simp
  then have m: "map (report_line env w') imgs = map (report_line env w) imgs"
    by (simp add: report_line_def)
  have step: "summary_loop env (item # imgs) w = summary_loop env imgs w'"
    using e by simp
  have "is_Ok (summary_loop env imgs w') \<and>
     stdout (trace (world_of (summary_loop env imgs w'))) =
       stdout (trace w') @ map (report_line env w') imgs"
    by (rule Cons.IH)
  then show ?case unfolding step m s by simp
qed

lemma summary_console_ok:
  assumes "console_ok env" and "stat_ok env"
  shows "is_Ok (summary env imgs w) \<and>
     stdout (trace (world_of (summary env imgs w))) =
       stdout (trace w) @ [[CHR 0x0A] @ rule_line, ''SUMMARY'', rule_line]
         @ map (report_line env w) imgs @ [''DONE'']"
proof -
  let ?w3 = "logged (Print rule_line) (logged (Print ''SUMMARY'')
      (logged (Print ([CHR 0x0A] @ rule_line)) w))"
  obtain w4 where l: "summary_loop env imgs ?w3 = Ok () w4"
    using summary_loop_console_ok [OF assms, of imgs ?w3]
    by (cases "summary_loop env imgs ?w3") auto
  have m: "map (report_line env ?w3) imgs = map (report_line env w) imgs"
    by (simp add: report_line_def)
  have "stdout (trace (world_of (summary_loop env imgs ?w3))) =
      stdout (trace ?w3) @ map (report_line env ?w3) imgs"
    using summary_loop_console_ok [OF assms, of imgs ?w3] by blast
  then have s: "stdout (trace w4) = stdout (trace ?w3) @ map (report_line env w) imgs"
    unfolding m l by simp
  have "summary env imgs w = Ok () (logged (Print ''DONE'') w4)"
    using l by (simp add: summary_def print_console_ok [OF assms(1)])
  then show ?thesis
    by (simp add: s)
qed

text \<open>
  C6. The summary pass only looks and prints: whatever happens, it leaves the file
  system as it found it and adds no service call, download, delay or directory creation
  to the trace. When printing and \<^verbatim>\<open>os.stat\<close> do not fail it completes, and what it prints
  is the three header lines, then one line per entry of the list, in list order (the
  filename with the size in KiB, rounded down, when the path exists, the filename flagged
  as missing when it does not), then the completion marker. It runs over the same list
  on the world the generation loop left, whatever the outcomes of the items were.
\<close>

theorem summary_reports_each_entry:
  "fs (world_of (summary env imgs w)) = fs w
   \<and> effects (trace (world_of (summary env imgs w))) = effects (trace w)
   \<and> (console_ok env \<and> stat_ok env \<longrightarrow>
        is_Ok (summary env imgs w)
        \<and> stdout (trace (world_of (summary env imgs w))) =
            stdout (trace w) @ [[CHR 0x0A] @ rule_line, ''SUMMARY'', rule_line]
              @ map (report_line env w) imgs @ [''DONE''])
   \<and> (generation_loop env imgs w0 = Ok () w \<longrightarrow> batch env imgs w0 = summary env imgs w)"
  using summary_frame [of env imgs w] summary_console_ok [of env imgs w]
  by (simp add: batch_def)

theorem summary_reports_each_entry_witness:
  "console_ok (scripted [0]) \<and> stat_ok (scripted [0])
   \<and> stdout (trace (world_of (batch (scripted [0]) two_items empty_world))) =
       [[CHR 0x0A] @ ''[1/2] Generating a.png (1:1)...'',
        ''  FAIL: a.png - service unavailable'', ''  Waiting 65s...'',
        [CHR 0x0A] @ ''[2/2] Generating b.png (16:9)...'', ''  OK Saved: b.png (0 KB)'',
        [CHR 0x0A] @ ''=================================================='', ''SUMMARY'',
        ''=================================================='',
        ''  MISSING a.png'', ''  OK b.png: 0 KB'', ''DONE'']
   \<and> ok_line ''b.png'' 2047 = ''  OK b.png: 1 KB''"
proof -
  let ?w = "world_of (generation_loop (scripted [0]) two_items empty_world)"
  have h: "console_ok (scripted [0])" "stat_ok (scripted [0])"
    by (simp_all add: console_ok_def stat_ok_def scripted_def)
  have w: "?w = \<lparr>fs = [asset_path (''b.png'', ''16:9'', ''y'') \<mapsto> File ''https://img.test/y''],
      trace = [Print ([CHR 0x0A] @ ''[1/2] Generating a.png (1:1)...''),
               Generate model_name (run_input ''x'' ''1:1''),
               Print ''  FAIL: a.png - service unavailable'',
               Print ''  Waiting 65s...'', Sleep 65,
               Print ([CHR 0x0A] @ ''[2/2] Generating b.png (16:9)...''),
               Generate model_name (run_input ''y'' ''16:9''),
               Retrieve ''https://img.test/y'' (asset_path (''b.png'', ''16:9'', ''y'')),
               Stat (asset_path (''b.png'', ''16:9'', ''y'')),
               Print ''  OK Saved: b.png (0 KB)'']\<rparr>"
    by (simp add: generation_loop_def two_items_def scripted_def empty_world_def run_defs
        asset_path_def run_input_def progress_line_def saved_line_def waiting_line_def
        fail_line_def str_nat.simps)
  have g: "generation_loop (scripted [0]) two_items empty_world = Ok () ?w"
    using for_loop_console_ok [OF h(1), of "length two_items" 0 two_items empty_world]
    by (cases "generation_loop (scripted [0]) two_items empty_world")
      (simp_all add: generation_loop_def)
  have r: "rule_line = ''==================================================''"
    by code_simp
  have k: "ok_line ''b.png'' 2047 = ''  OK b.png: 1 KB''"
    by (simp add: ok_line_def str_nat.simps)
  have d: "path_join ASSETS ''a.png'' \<noteq> path_join ASSETS ''b.png''"
    by (simp add: path_join_def ASSETS_def)
  from summary_reports_each_entry [of "scripted [0]" two_items ?w empty_world] h g
  have "stdout (trace (world_of (batch (scripted [0]) two_items empty_world))) =
      stdout (trace ?w) @ [[CHR 0x0A] @ rule_line, ''SUMMARY'', rule_line]
        @ map (report_line (scripted [0]) ?w) two_items @ [''DONE'']"
    by simp
  then show ?thesis
    using h d k unfolding w
    by (simp add: two_items_def report_line_def asset_path_def r
        missing_line_def ok_line_def st_size_def str_nat.simps)
qed

subsection \<open>Runs in which every item succeeds\<close>

lemma try_except_fs_ok:
  assumes "service_ok env" and "fetch_ok env"
  shows "\<exists>body. fs (world_of (try_except env item w)) = (fs w)(asset_path item \<mapsto> File body)"
proof -
  obtain filename aspect prompt where item: "item = (filename, aspect, prompt)"
    by (cases item)
  let ?inp = "run_input prompt aspect"
  have "\<not> isl (service env w model_name ?inp)"
    using assms(1) by (simp add: service_ok_def)
  then obtain url where s: "service env w model_name ?inp = Inr url"
    by (cases "service env w model_name ?inp") auto
  let ?w1 = "logged (Generate model_name ?inp) w"
  have "is_Fetched (fetch env ?w1 url (asset_path item))"
    using assms(2) by (simp add: fetch_ok_def)
  then obtain body where f: "fetch env ?w1 url (asset_path item) = Fetched body"
    by (cases "fetch env ?w1 url (asset_path item)") auto
  have "fs (world_of (try_except env item w)) = (fs w)(asset_path item \<mapsto> File body)"
    using s f item
    by (auto simp: item_defs asset_path_def split: option.splits)
  then show ?thesis ..
qed

lemma loop_body_fs_ok:
  assumes "console_ok env" and "service_ok env" and "fetch_ok env"
  shows "\<exists>w' body. loop_body env n i item w = Ok () w'
     \<and> fs w' = (fs w)(asset_path item \<mapsto> File body)"
proof -
  let ?w1 = "logged (Print (progress_line i n (fst item) (fst (snd item)))) w"
  from loop_body_console_ok [OF assms(1), of item i n w]
  obtain w2 where t: "try_except env item ?w1 = Ok () w2"
    and b: "loop_body env n i item w =
       Ok () (if int i < int n - 1 then logged (Sleep 65) (logged (Print waiting_line) w2)
              else w2)" by blast
  from try_except_fs_ok [OF assms(2,3), of item ?w1] t
  obtain body where "fs w2 = (fs w)(asset_path item \<mapsto> File body)" by auto
  then have "fs (if int i < int n - 1 then logged (Sleep 65) (logged (Print waiting_line) w2)
      else w2) = (fs w)(asset_path item \<mapsto> File body)"
    by simp
  with b show ?thesis by blast
qed

lemma for_loop_fs_ok:
  assumes "console_ok env" and "service_ok env" and "fetch_ok env"
  shows "is_Ok (for_loop env n (enumerate i xs) w)
    \<and> (\<forall>item\<in>set xs. is_file (world_of (for_loop env n (enumerate i xs) w)) (asset_path item))
    \<and> (\<forall>p. is_file w p \<longrightarrow> is_file (world_of (for_loop env n (enumerate i xs) w)) p)
    \<and> dom (fs (world_of (for_loop env n (enumerate i xs) w))) =
        dom (fs w) \<union> asset_path ` set xs"
proof (induction xs arbitrary: i w)
  case Nil
  then show ?case by simp
next
  case (Cons item xs)
  from loop_body_fs_ok [OF assms, of n i item w]
  obtain w' body where b: "loop_body env n i item w = Ok () w'"
    and f: "fs w' = (fs w)(asset_path item \<mapsto> File body)" by blast
  have step: "for_loop env n (enumerate i (item # xs)) w = for_loop env n (enumerate (Suc i) xs) w'"
    using b by simp
  let ?wf = "world_of (for_loop env n (enumerate (Suc i) xs) w')"
  have ih: "is_Ok (for_loop env n (enumerate (Suc i) xs) w')
    \<and> (\<forall>item\<in>set xs. is_file ?wf (asset_path item))
    \<and> (\<forall>p. is_file w' p \<longrightarrow> is_file ?wf p)
    \<and> dom (fs ?wf) = dom (fs w') \<union> asset_path ` set xs"
    by (rule Cons.IH)
  have here: "is_file w' (asset_path item)"
    using f by (simp add: is_file_def)
  have keep: "\<And>p. is_file w p \<Longrightarrow> is_file w' p"
    using f by (simp add: is_file_def)
  have d: "dom (fs w') = insert (asset_path item) (dom (fs w))"
    using f by simp
  show ?case unfolding step using ih here keep d by auto
qed


text \<open>
  C4. When the service and the download succeed at every call (and printing, the delay
  and \<^verbatim>\<open>os.stat\<close> do not fail), the batch completes, every entry of the list has a
  regular file at its path under the output directory afterwards, and the summary prints
  for every entry, in list order, the line that reports it present with its size: no
  entry is flagged as missing.
\<close>

theorem all_succeed_all_present:
  assumes "console_ok env" and "stat_ok env" and "service_ok env" and "fetch_ok env"
  shows "is_Ok (batch env imgs w)
    \<and> (\<forall>item\<in>set imgs. is_file (world_of (batch env imgs w)) (asset_path item))
    \<and> stdout (trace (world_of (batch env imgs w))) =
        stdout (trace (world_of (generation_loop env imgs w)))
          @ [[CHR 0x0A] @ rule_line, ''SUMMARY'', rule_line]
          @ map (\<lambda>item. ok_line (fst item)
                  (file_size (world_of (batch env imgs w)) (asset_path item))) imgs
          @ [''DONE'']"
proof -
  let ?wl = "world_of (generation_loop env imgs w)"
  let ?wf = "world_of (batch env imgs w)"
  have loop: "is_Ok (generation_loop env imgs w)"
    and files: "\<forall>item\<in>set imgs. is_file ?wl (asset_path item)"
    using for_loop_fs_ok [OF assms(1,3,4), of "length imgs" 0 imgs w]
    by (simp_all add: generation_loop_def)
  from loop have b: "batch env imgs w = summary env imgs ?wl"
    by (cases "generation_loop env imgs w") (simp_all add: batch_def)
  have same: "fs ?wf = fs ?wl"
    unfolding b using summary_frame [of env imgs ?wl] by simp
  have present: "\<forall>item\<in>set imgs. is_file ?wf (asset_path item)"
    using files same by (simp add: is_file_def)
  have line: "report_line env ?wl item = ok_line (fst item) (file_size ?wf (asset_path item))"
    if "item \<in> set imgs" for item
  proof -
    from files that have "is_file ?wl (asset_path item)" by blast
    then obtain body where "fs ?wl (asset_path item) = Some (File body)"
      by (auto simp: is_file_def split: option.splits node.splits)
    then show ?thesis
      using same by (simp add: report_line_def file_size_def st_size_def)
  qed
  then have lines: "map (report_line env ?wl) imgs =
      map (\<lambda>item. ok_line (fst item) (file_size ?wf (asset_path item))) imgs"
    by simp
  have s: "is_Ok (summary env imgs ?wl) \<and>
     stdout (trace (world_of (summary env imgs ?wl))) =
       stdout (trace ?wl) @ [[CHR 0x0A] @ rule_line, ''SUMMARY'', rule_line]
         @ map (report_line env ?wl) imgs @ [''DONE'']"
    by (rule summary_console_ok [OF assms(1,2)])
  have completes: "is_Ok (batch env imgs w)"
    using s b by simp
  have "stdout (trace ?wf) =
       stdout (trace ?wl) @ [[CHR 0x0A] @ rule_line, ''SUMMARY'', rule_line]
         @ map (report_line env ?wl) imgs @ [''DONE'']"
    using s b by simp
  then have "stdout (trace ?wf) =
       stdout (trace ?wl) @ [[CHR 0x0A] @ rule_line, ''SUMMARY'', rule_line]
         @ map (\<lambda>item. ok_line (fst item) (file_size ?wf (asset_path item))) imgs @ [''DONE'']"
    by (simp only: lines)
  with present completes show ?thesis by blast
qed

theorem all_succeed_all_present_witness:
  "console_ok (scripted []) \<and> stat_ok (scripted [])
   \<and> service_ok (scripted []) \<and> fetch_ok (scripted [])
   \<and> is_Ok (batch (scripted []) two_items empty_world)
   \<and> is_file (world_of (batch (scripted []) two_items empty_world))
       (asset_path (''a.png'', ''1:1'', ''x''))
   \<and> is_file (world_of (batch (scripted []) two_items empty_world))
       (asset_path (''b.png'', ''16:9'', ''y''))
   \<and> stdout (trace (world_of (batch (scripted []) two_items empty_world))) =
       [[CHR 0x0A] @ ''[1/2] Generating a.png (1:1)...'', ''  OK Saved: a.png (0 KB)'',
        ''  Waiting 65s...'',
        [CHR 0x0A] @ ''[2/2] Generating b.png (16:9)...'', ''  OK Saved: b.png (0 KB)'',
        [CHR 0x0A] @ ''=================================================='', ''SUMMARY'',
        ''=================================================='',
        ''  OK a.png: 0 KB'', ''  OK b.png: 0 KB'', ''DONE'']"
proof -
  let ?wl = "world_of (generation_loop (scripted []) two_items empty_world)"
  let ?wf = "world_of (batch (scripted []) two_items empty_world)"
  have h: "console_ok (scripted [])" "stat_ok (scripted [])"
    "service_ok (scripted [])" "fetch_ok (scripted [])"
    by (simp_all add: console_ok_def stat_ok_def service_ok_def fetch_ok_def scripted_def)
  note run = all_succeed_all_present [OF h, of two_items empty_world]
  have d: "path_join ASSETS ''a.png'' \<noteq> path_join ASSETS ''b.png''"
    by (simp add: path_join_def ASSETS_def)
  have wl: "?wl = \<lparr>fs = [asset_path (''a.png'', ''1:1'', ''x'') \<mapsto> File ''https://img.test/x'',
                         asset_path (''b.png'', ''16:9'', ''y'') \<mapsto> File ''https://img.test/y''],
      trace = [Print ([CHR 0x0A] @ ''[1/2] Generating a.png (1:1)...''),
               Generate model_name (run_input ''x'' ''1:1''),
               Retrieve ''https://img.test/x'' (asset_path (''a.png'', ''1:1'', ''x'')),
               Stat (asset_path (''a.png'', ''1:1'', ''x'')),
               Print ''  OK Saved: a.png (0 KB)'',
               Print ''  Waiting 65s...'', Sleep 65,
               Print ([CHR 0x0A] @ ''[2/2] Generating b.png (16:9)...''),
               Generate model_name (run_input ''y'' ''16:9''),
               Retrieve ''https://img.test/y'' (asset_path (''b.png'', ''16:9'', ''y'')),
               Stat (asset_path (''b.png'', ''16:9'', ''y'')),
               Print ''  OK Saved: b.png (0 KB)'']\<rparr>"
    by (simp add: generation_loop_def two_items_def scripted_def empty_world_def run_defs
        asset_path_def run_input_def progress_line_def saved_line_def waiting_line_def
        str_nat.simps)
  have "fs ?wf = fs ?wl"
    using summary_frame [of "scripted []" two_items ?wl] run
    by (cases "generation_loop (scripted []) two_items empty_world") (simp_all add: batch_def)
  then have sizes: "file_size ?wf (asset_path (''a.png'', ''1:1'', ''x'')) = 18"
    "file_size ?wf (asset_path (''b.png'', ''16:9'', ''y'')) = 18"
    using d unfolding wl by (simp_all add: file_size_def asset_path_def)
  have r: "rule_line = ''==================================================''"
    by code_simp
  have outl: "stdout (trace ?wl) =
       [[CHR 0x0A] @ ''[1/2] Generating a.png (1:1)...'', ''  OK Saved: a.png (0 KB)'',
        ''  Waiting 65s...'',
        [CHR 0x0A] @ ''[2/2] Generating b.png (16:9)...'', ''  OK Saved: b.png (0 KB)'']"
    unfolding wl by simp
  have lines: "map (\<lambda>item. ok_line (fst item) (file_size ?wf (asset_path item))) two_items =
      [''  OK a.png: 0 KB'', ''  OK b.png: 0 KB'']"
    using sizes by (simp add: two_items_def ok_line_def str_nat.simps)
  from run have "stdout (trace ?wf) =
      stdout (trace ?wl) @ [[CHR 0x0A] @ rule_line, ''SUMMARY'', rule_line]
        @ map (\<lambda>item. ok_line (fst item) (file_size ?wf (asset_path item))) two_items
        @ [''DONE'']"
    by blast
  then have "stdout (trace ?wf) =
       [[CHR 0x0A] @ ''[1/2] Generating a.png (1:1)...'', ''  OK Saved: a.png (0 KB)'',
        ''  Waiting 65s...'',
        [CHR 0x0A] @ ''[2/2] Generating b.png (16:9)...'', ''  OK Saved: b.png (0 KB)'',
        [CHR 0x0A] @ ''=================================================='', ''SUMMARY'',
        ''=================================================='',
        ''  OK a.png: 0 KB'', ''  OK b.png: 0 KB'', ''DONE'']"
    unfolding outl lines r by simp
  with run h show ?thesis
    by (simp add: two_items_def)
qed

subsection \<open>A run in which one item fails\<close>

lemma is_fail_notice_lines [simp]:
  "\<not> is_fail_notice (progress_line i n filename aspect)"
  "\<not> is_fail_notice (saved_line filename sz)"
  "\<not> is_fail_notice waiting_line"
  "is_fail_notice (fail_line filename e)"
  by (simp_all add: is_fail_notice_def progress_line_def saved_line_def waiting_line_def
      fail_line_def)

lemma loop_body_failing:
  assumes "console_ok env"
    and "service env (logged (Print (progress_line i n (fst item) (fst (snd item)))) w)
           (fst (call_of item)) (snd (call_of item)) = Inl err"
  shows "\<exists>w'. loop_body env n i item w = Ok () w' \<and> fs w' = fs w
    \<and> filter is_fail_notice (stdout (trace w')) =
        filter is_fail_notice (stdout (trace w)) @ [fail_line (fst item) err]
    \<and> length (service_calls (trace w')) = Suc (length (service_calls (trace w)))"
proof -
  obtain filename aspect prompt where item: "item = (filename, aspect, prompt)"
    by (cases item)
  let ?w1 = "logged (Print (progress_line i n filename aspect)) w"
  let ?inp = "run_input prompt aspect"
  have s: "service env ?w1 model_name ?inp = Inl err"
    using assms(2) item by (simp add: call_of_def)
  have t: "try_except env item ?w1 =
      Ok () (logged (Print (fail_line filename err)) (logged (Generate model_name ?inp) ?w1))"
    using s assms(1) item
    by (simp add: try_except_def try_body_def replicate_run_def print_console_ok)
  show ?thesis
    using t assms(1) item
    by (simp add: loop_body_def print_console_ok pacing_console_ok)
qed

lemma loop_body_succeeding:
  assumes "console_ok env" and "stat_ok env" and "fetch_ok env"
    and "\<not> isl (service env (logged (Print (progress_line i n (fst item) (fst (snd item)))) w)
           (fst (call_of item)) (snd (call_of item)))"
  shows "\<exists>w' body. loop_body env n i item w = Ok () w'
    \<and> fs w' = (fs w)(asset_path item \<mapsto> File body)
    \<and> filter is_fail_notice (stdout (trace w')) = filter is_fail_notice (stdout (trace w))
    \<and> length (service_calls (trace w')) = Suc (length (service_calls (trace w)))"
proof -
  obtain filename aspect prompt where item: "item = (filename, aspect, prompt)"
    by (cases item)
  let ?p = "path_join ASSETS filename"
  let ?w1 = "logged (Print (progress_line i n filename aspect)) w"
  let ?inp = "run_input prompt aspect"
  let ?w2 = "logged (Generate model_name ?inp) ?w1"
  obtain url where s: "service env ?w1 model_name ?inp = Inr url"
    using assms(4) item
    by (cases "service env ?w1 model_name ?inp") (auto simp: call_of_def)
  have "is_Fetched (fetch env ?w2 url ?p)"
    using assms(3) by (simp add: fetch_ok_def)
  then obtain body where f: "fetch env ?w2 url ?p = Fetched body"
    by (cases "fetch env ?w2 url ?p") auto
  let ?w3 = "logged (Retrieve url ?p) ?w2\<lparr>fs := (fs w)(?p \<mapsto> File body)\<rparr>"
  have st: "stat_err env ?w3 ?p = None"
    using assms(2) by (simp add: stat_ok_def)
  have t: "try_except env item ?w1 =
      Ok () (logged (Print (saved_line filename (length body))) (logged (Stat ?p) ?w3))"
    using s f st assms(1) item
    by (simp add: try_except_def try_body_def replicate_run_def urlretrieve_def getsize_def
        os_stat_def st_size_def print_console_ok Let_def)
  have "\<exists>w'. loop_body env n i item w = Ok () w'
    \<and> fs w' = (fs w)(asset_path item \<mapsto> File body)
    \<and> filter is_fail_notice (stdout (trace w')) = filter is_fail_notice (stdout (trace w))
    \<and> length (service_calls (trace w')) = Suc (length (service_calls (trace w)))"
    using t assms(1) item
    by (simp add: loop_body_def print_console_ok pacing_console_ok asset_path_def)
  then show ?thesis by blast
qed


lemma for_loop_one_failure:
  assumes ok: "console_ok env" "stat_ok env" "fetch_ok env"
    and fails: "\<forall>w' m inp. length (service_calls (trace w')) = c0 + k \<longrightarrow>
        service env w' m inp = Inl err"
    and succeeds: "\<forall>w' m inp. length (service_calls (trace w')) \<noteq> c0 + k \<longrightarrow>
        \<not> isl (service env w' m inp)"
  shows "length (service_calls (trace w)) = c0 + i \<Longrightarrow>
    is_Ok (for_loop env n (enumerate i xs) w)
    \<and> filter is_fail_notice (stdout (trace (world_of (for_loop env n (enumerate i xs) w)))) =
        filter is_fail_notice (stdout (trace w))
          @ map (\<lambda>(j, item). fail_line (fst item) err)
              (filter (\<lambda>(j, item). j = k) (enumerate i xs))
    \<and> (\<forall>(j, item)\<in>set (enumerate i xs). j \<noteq> k \<longrightarrow>
          is_file (world_of (for_loop env n (enumerate i xs) w)) (asset_path item))
    \<and> (\<forall>p. (\<forall>(j, item)\<in>set (enumerate i xs). j \<noteq> k \<longrightarrow> p \<noteq> asset_path item) \<longrightarrow>
          fs (world_of (for_loop env n (enumerate i xs) w)) p = fs w p)
    \<and> (\<forall>p. is_file w p \<longrightarrow> is_file (world_of (for_loop env n (enumerate i xs) w)) p)"
proof (induction xs arbitrary: i w)
  case Nil
  then show ?case by simp
next
  case (Cons item xs)
  let ?w1 = "logged (Print (progress_line i n (fst item) (fst (snd item)))) w"
  have count: "length (service_calls (trace ?w1)) = c0 + i"
    using Cons.prems by simp
  show ?case
  proof (cases "i = k")
    case True
    have "service env ?w1 (fst (call_of item)) (snd (call_of item)) = Inl err"
      using fails [rule_format, of ?w1] count True by simp
    from loop_body_failing [OF ok(1) this]
    obtain w' where b: "loop_body env n i item w = Ok () w'" and f: "fs w' = fs w"
      and notice: "filter is_fail_notice (stdout (trace w')) =
        filter is_fail_notice (stdout (trace w)) @ [fail_line (fst item) err]"
      and c: "length (service_calls (trace w')) = Suc (length (service_calls (trace w)))"
      by blast
    have step: "for_loop env n (enumerate i (item # xs)) w =
        for_loop env n (enumerate (Suc i) xs) w'"
      using b by simp
    have c': "length (service_calls (trace w')) = c0 + Suc i"
      using c Cons.prems by simp
    have keep: "\<And>p. is_file w p \<Longrightarrow> is_file w' p"
      using f by (simp add: is_file_def)
    note ih = Cons.IH [OF c']
    show ?thesis
      unfolding step using ih True notice f keep by auto
  next
    case False
    have "\<not> isl (service env ?w1 (fst (call_of item)) (snd (call_of item)))"
      using succeeds [rule_format, of ?w1] count False by simp
    from loop_body_succeeding [OF ok this]
    obtain w' body where b: "loop_body env n i item w = Ok () w'"
      and f: "fs w' = (fs w)(asset_path item \<mapsto> File body)"
      and notice: "filter is_fail_notice (stdout (trace w')) =
        filter is_fail_notice (stdout (trace w))"
      and c: "length (service_calls (trace w')) = Suc (length (service_calls (trace w)))"
      by blast
    have step: "for_loop env n (enumerate i (item # xs)) w =
        for_loop env n (enumerate (Suc i) xs) w'"
      using b by simp
    have c': "length (service_calls (trace w')) = c0 + Suc i"
      using c Cons.prems by simp
    have here: "is_file w' (asset_path item)"
      using f by (simp add: is_file_def)
    have keep: "\<And>p. is_file w p \<Longrightarrow> is_file w' p"
      using f by (simp add: is_file_def)
    have frame: "\<And>p. p \<noteq> asset_path item \<Longrightarrow> fs w' p = fs w p"
      using f by simp
    note ih = Cons.IH [OF c']
    show ?thesis
      unfolding step using ih False notice here keep frame by auto
  qed
qed


lemma asset_path_inj: "asset_path a = asset_path b \<Longrightarrow> fst a = fst b"
proof -
  assume eq: "asset_path a = asset_path b"
  have A: "ASSETS \<noteq> []" "hd ASSETS = CHR ''C''" "last ASSETS \<noteq> CHR ''/''"
    by (simp_all add: ASSETS_def)
  have form: "path_join ASSETS f = (if f \<noteq> [] \<and> hd f = CHR ''/'' then f else ASSETS @ ''/'' @ f)"
    for f using A by (simp add: path_join_def)
  have abs: "f \<noteq> [] \<and> hd f = CHR ''/'' \<Longrightarrow> f \<noteq> ASSETS @ ''/'' @ g" for f g
    using A by (cases ASSETS) auto
  show ?thesis
    using eq abs [of "fst a" "fst b"] abs [of "fst b" "fst a"]
    unfolding asset_path_def form by (auto split: if_splits)
qed

lemma filter_enumerate_index:
  "filter (\<lambda>(j, item). j = k) (enumerate i xs) =
     (if i \<le> k \<and> k < i + length xs then [(k, xs ! (k - i))] else [])"
proof (induction xs arbitrary: i)
  case Nil
  then show ?case by simp
next
  case (Cons x xs)
  show ?case
  proof (cases "i = k")
    case True
    then show ?thesis using Cons.IH [of "Suc i"] by simp
  next
    case False
    then show ?thesis using Cons.IH [of "Suc i"] by (auto simp: Suc_diff_le)
  qed
qed

text \<open>
  C5. Let the service fail, with error \<open>err\<close>, at its invocation number \<open>k\<close> of this run
  (counted from zero, so the one for item \<open>k\<close>) and succeed at every other one; let the
  downloads succeed, and printing, the delay and \<^verbatim>\<open>os.stat\<close> not fail; let the filenames
  of the list be distinct. Then the loop completes and has invoked the service for all
  \<open>n\<close> items in order; the run prints exactly one failure notice, the one of item \<open>k\<close>
  with the description of \<open>err\<close>; the path of item \<open>k\<close> holds what it held before the
  run (nothing, or a file left by an earlier run); and every other item has a regular
  file at its path.
\<close>

theorem one_failure_isolated:
  assumes "console_ok env" and "stat_ok env" and "fetch_ok env"
    and "k < length imgs" and "distinct (map fst imgs)"
    and "\<forall>w' m inp. length (service_calls (trace w')) = length (service_calls (trace w)) + k
          \<longrightarrow> service env w' m inp = Inl err"
    and "\<forall>w' m inp. length (service_calls (trace w')) \<noteq> length (service_calls (trace w)) + k
          \<longrightarrow> \<not> isl (service env w' m inp)"
  shows "is_Ok (generation_loop env imgs w)
    \<and> service_calls (trace (world_of (generation_loop env imgs w))) =
        service_calls (trace w) @ map call_of imgs
    \<and> filter is_fail_notice (stdout (trace (world_of (generation_loop env imgs w)))) =
        filter is_fail_notice (stdout (trace w)) @ [fail_line (fst (imgs ! k)) err]
    \<and> fs (world_of (generation_loop env imgs w)) (asset_path (imgs ! k)) =
        fs w (asset_path (imgs ! k))
    \<and> (\<forall>j<length imgs. j \<noteq> k \<longrightarrow>
          is_file (world_of (generation_loop env imgs w)) (asset_path (imgs ! j)))"
proof -
  let ?wf = "world_of (for_loop env (length imgs) (enumerate 0 imgs) w)"
  let ?c0 = "length (service_calls (trace w))"
  have c: "length (service_calls (trace w)) = ?c0 + 0"
    by simp
  note loop = for_loop_one_failure [OF assms(1,2,3,6,7) c, where n = "length imgs" and xs = imgs]
  from loop have completes: "is_Ok (for_loop env (length imgs) (enumerate 0 imgs) w)"
    by (rule conjunct1)
  from loop have notices: "filter is_fail_notice (stdout (trace ?wf)) =
        filter is_fail_notice (stdout (trace w))
          @ map (\<lambda>(j, item). fail_line (fst item) err)
              (filter (\<lambda>(j, item). j = k) (enumerate 0 imgs))"
    by (elim conjE)
  from loop have created:
    "\<forall>(j, item)\<in>set (enumerate 0 imgs). j \<noteq> k \<longrightarrow> is_file ?wf (asset_path item)"
    by (elim conjE)
  from loop have untouched:
    "\<forall>p. (\<forall>(j, item)\<in>set (enumerate 0 imgs). j \<noteq> k \<longrightarrow> p \<noteq> asset_path item) \<longrightarrow>
          fs ?wf p = fs w p"
    by (elim conjE)
  have calls: "service_calls (trace ?wf) = service_calls (trace w) @ map call_of imgs"
    using for_loop_console_ok [OF assms(1), of "length imgs" 0 imgs w] by (rule conjunct2)
  have "filter (\<lambda>(j, item). j = k) (enumerate 0 imgs) = [(k, imgs ! k)]"
    using assms(4) by (simp add: filter_enumerate_index)
  then have notice: "filter is_fail_notice (stdout (trace ?wf)) =
      filter is_fail_notice (stdout (trace w)) @ [fail_line (fst (imgs ! k)) err]"
    unfolding notices by simp
  have others: "\<forall>j<length imgs. j \<noteq> k \<longrightarrow> is_file ?wf (asset_path (imgs ! j))"
  proof (intro allI impI)
    fix j assume "j < length imgs" and "j \<noteq> k"
    then have "(j, imgs ! j) \<in> set (enumerate 0 imgs)"
      by (simp add: in_set_enumerate_eq)
    with created have "case (j, imgs ! j) of (j, item) \<Rightarrow>
        j \<noteq> k \<longrightarrow> is_file ?wf (asset_path item)"
      by (rule bspec)
    with \<open>j \<noteq> k\<close> show "is_file ?wf (asset_path (imgs ! j))" by simp
  qed
  have apart: "asset_path (imgs ! k) \<noteq> asset_path item"
    if mem: "(j, item) \<in> set (enumerate 0 imgs)" and neq: "j \<noteq> k" for j item
  proof
    assume eq: "asset_path (imgs ! k) = asset_path item"
    from mem have j: "j < length imgs" and item: "item = imgs ! j"
      by (simp_all add: in_set_enumerate_eq)
    from eq have "fst (imgs ! k) = fst (imgs ! j)"
      unfolding item by (rule asset_path_inj)
    then have "map fst imgs ! k = map fst imgs ! j"
      using j assms(4) by simp
    moreover have "k < length (map fst imgs)" "j < length (map fst imgs)"
      using j assms(4) by simp_all
    ultimately have "k = j"
      using assms(5) nth_eq_iff_index_eq [of "map fst imgs" k j] by blast
    then show False using neq by simp
  qed
  have "\<forall>(j, item)\<in>set (enumerate 0 imgs). j \<noteq> k \<longrightarrow> asset_path (imgs ! k) \<noteq> asset_path item"
  proof (intro ballI)
    fix x assume m: "x \<in> set (enumerate 0 imgs)"
    obtain j item where x: "x = (j, item)" by (cases x)
    show "case x of (j, item) \<Rightarrow> j \<noteq> k \<longrightarrow> asset_path (imgs ! k) \<noteq> asset_path item"
      using apart [of j item] m unfolding x by simp
  qed
  then have kept: "fs ?wf (asset_path (imgs ! k)) = fs w (asset_path (imgs ! k))"
    by (rule untouched [THEN spec, THEN mp])
  show ?thesis
    unfolding generation_loop_def
    by (intro conjI completes calls notice kept others)
qed

theorem one_failure_isolated_witness:
  "console_ok (scripted [0]) \<and> stat_ok (scripted [0]) \<and> fetch_ok (scripted [0])
   \<and> distinct (map fst two_items)
   \<and> service (scripted [0]) empty_world model_name (run_input ''x'' ''1:1'') =
       Inl (Exn Exception ''service unavailable'')
   \<and> is_Ok (generation_loop (scripted [0]) two_items empty_world)
   \<and> service_calls (trace (world_of (generation_loop (scripted [0]) two_items empty_world))) =
       [(model_name, run_input ''x'' ''1:1''), (model_name, run_input ''y'' ''16:9'')]
   \<and> filter is_fail_notice
       (stdout (trace (world_of (generation_loop (scripted [0]) two_items empty_world)))) =
       [''  FAIL: a.png - service unavailable'']
   \<and> fs (world_of (generation_loop (scripted [0]) two_items empty_world))
       (asset_path (''a.png'', ''1:1'', ''x'')) = None
   \<and> is_file (world_of (generation_loop (scripted [0]) two_items empty_world))
       (asset_path (''b.png'', ''16:9'', ''y''))"
proof -
  let ?err = "Exn Exception ''service unavailable''"
  have h: "console_ok (scripted [0])" "stat_ok (scripted [0])" "fetch_ok (scripted [0])"
    by (simp_all add: console_ok_def stat_ok_def fetch_ok_def scripted_def)
  have k: "0 < length two_items" and d: "distinct (map fst two_items)"
    by (simp_all add: two_items_def)
  have f: "\<forall>w' m inp. length (service_calls (trace w')) =
      length (service_calls (trace empty_world)) + 0 \<longrightarrow>
        service (scripted [0]) w' m inp = Inl ?err"
    by (simp add: scripted_def empty_world_def)
  have s: "\<forall>w' m inp. length (service_calls (trace w')) \<noteq>
      length (service_calls (trace empty_world)) + 0 \<longrightarrow>
        \<not> isl (service (scripted [0]) w' m inp)"
    by (simp add: scripted_def empty_world_def)
  have first: "service (scripted [0]) empty_world model_name (run_input ''x'' ''1:1'') = Inl ?err"
    by (simp add: scripted_def empty_world_def)
  note run = one_failure_isolated [OF h k d f s]
  have "1 < length two_items \<and> (1::nat) \<noteq> 0"
    by (simp add: two_items_def)
  with run have other: "is_file (world_of (generation_loop (scripted [0]) two_items empty_world))
      (asset_path (two_items ! 1))"
    by blast
  from run have "is_Ok (generation_loop (scripted [0]) two_items empty_world)
    \<and> service_calls (trace (world_of (generation_loop (scripted [0]) two_items empty_world))) =
        service_calls (trace empty_world) @ map call_of two_items
    \<and> filter is_fail_notice
        (stdout (trace (world_of (generation_loop (scripted [0]) two_items empty_world)))) =
        filter is_fail_notice (stdout (trace empty_world)) @ [fail_line (fst (two_items ! 0)) ?err]
    \<and> fs (world_of (generation_loop (scripted [0]) two_items empty_world))
        (asset_path (two_items ! 0)) = fs empty_world (asset_path (two_items ! 0))"
    by blast
  with other h d first show ?thesis
    by (simp add: two_items_def call_of_def empty_world_def fail_line_def)
qed

subsection \<open>Running the batch twice\<close>

lemma batch_fs:
  "is_Ok (generation_loop env imgs w) \<Longrightarrow>
     fs (world_of (batch env imgs w)) = fs (world_of (generation_loop env imgs w))"
  using summary_frame [of env imgs "world_of (generation_loop env imgs w)"]
  by (cases "generation_loop env imgs w") (simp_all add: batch_def)

lemma distinct_asset_paths:
  "distinct (map fst xs) \<Longrightarrow> distinct (map asset_path xs)"
proof (induction xs)
  case Nil
  then show ?case by simp
next
  case (Cons x xs)
  have "asset_path x \<notin> asset_path ` set xs"
  proof
    assume "asset_path x \<in> asset_path ` set xs"
    then obtain y where y: "y \<in> set xs" and eq: "asset_path x = asset_path y" by blast
    from eq have "fst x = fst y" by (rule asset_path_inj)
    then have "fst x \<in> fst ` set xs" using y by blast
    then show False using Cons.prems by simp
  qed
  then show ?case using Cons by simp
qed

lemma try_except_fs_pure:
  assumes "\<forall>w m inp. service env w m inp = Inr (loc inp)"
    and "\<forall>w url p. fetch env w url p = Fetched (body url)"
  shows "fs (world_of (try_except env item w)) =
     (fs w)(asset_path item \<mapsto> File (body (loc (snd (call_of item)))))"
  using assms
  by (cases item)
    (auto simp: item_defs asset_path_def call_of_def split: option.splits)

lemma loop_body_fs_pure:
  assumes "console_ok env"
    and "\<forall>w m inp. service env w m inp = Inr (loc inp)"
    and "\<forall>w url p. fetch env w url p = Fetched (body url)"
  shows "\<exists>w'. loop_body env n i item w = Ok () w'
     \<and> fs w' = (fs w)(asset_path item \<mapsto> File (body (loc (snd (call_of item)))))"
proof -
  let ?w1 = "logged (Print (progress_line i n (fst item) (fst (snd item)))) w"
  from loop_body_console_ok [OF assms(1), of item i n w]
  obtain w2 where t: "try_except env item ?w1 = Ok () w2"
    and b: "loop_body env n i item w =
       Ok () (if int i < int n - 1 then logged (Sleep 65) (logged (Print waiting_line) w2)
              else w2)" by blast
  have "fs w2 = (fs w)(asset_path item \<mapsto> File (body (loc (snd (call_of item)))))"
    using try_except_fs_pure [OF assms(2,3), of item ?w1] t by simp
  then have "fs (if int i < int n - 1 then logged (Sleep 65) (logged (Print waiting_line) w2)
      else w2) = (fs w)(asset_path item \<mapsto> File (body (loc (snd (call_of item)))))"
    by simp
  with b show ?thesis by blast
qed

lemma for_loop_fs_pure:
  assumes "console_ok env"
    and "\<forall>w m inp. service env w m inp = Inr (loc inp)"
    and "\<forall>w url p. fetch env w url p = Fetched (body url)"
  shows "distinct (map asset_path xs) \<Longrightarrow>
    (\<forall>item\<in>set xs. fs (world_of (for_loop env n (enumerate i xs) w)) (asset_path item) =
        Some (File (body (loc (snd (call_of item))))))
    \<and> (\<forall>p. p \<notin> asset_path ` set xs \<longrightarrow>
          fs (world_of (for_loop env n (enumerate i xs) w)) p = fs w p)"
proof (induction xs arbitrary: i w)
  case Nil
  then show ?case by simp
next
  case (Cons item xs)
  from loop_body_fs_pure [OF assms, of n i item w]
  obtain w' where b: "loop_body env n i item w = Ok () w'"
    and f: "fs w' = (fs w)(asset_path item \<mapsto> File (body (loc (snd (call_of item)))))"
    by blast
  have step: "for_loop env n (enumerate i (item # xs)) w =
      for_loop env n (enumerate (Suc i) xs) w'"
    using b by simp
  let ?wf = "world_of (for_loop env n (enumerate (Suc i) xs) w')"
  have d: "distinct (map asset_path xs)" and fresh: "asset_path item \<notin> asset_path ` set xs"
    using Cons.prems by simp_all
  have ih1: "\<forall>item\<in>set xs. fs ?wf (asset_path item) =
      Some (File (body (loc (snd (call_of item)))))"
    and ih2: "\<forall>p. p \<notin> asset_path ` set xs \<longrightarrow> fs ?wf p = fs w' p"
    using Cons.IH [OF d, of "Suc i" w'] by simp_all
  have here: "fs ?wf (asset_path item) = Some (File (body (loc (snd (call_of item)))))"
    using ih2 fresh f by simp
  have frame: "\<forall>p. p \<notin> asset_path ` set (item # xs) \<longrightarrow> fs ?wf p = fs w p"
    using ih2 f by simp
  show ?case unfolding step using ih1 here frame by simp
qed


text \<open>
  C7. Run the batch twice over a list with distinct filenames, each time with a service
  and downloads that succeed (and with notices and delays that do not raise); in the
  second run let the service return the locator \<open>loc inp\<close> and the download deliver
  \<open>body url\<close>. After the first run the files are those that were there before together
  with one per entry of the list (\<open>n\<close> distinct paths). The second run adds no file and
  removes none, and every asset path then holds exactly what the second run downloaded
  for it, whatever the first run had left there.
\<close>

theorem rerun_overwrites:
  assumes "console_ok env1" and "service_ok env1" and "fetch_ok env1"
    and "console_ok env2"
    and "\<forall>w m inp. service env2 w m inp = Inr (loc inp)"
    and "\<forall>w url p. fetch env2 w url p = Fetched (body url)"
    and "distinct (map fst imgs)"
    and "w1 = world_of (batch env1 imgs w0)" and "w2 = world_of (batch env2 imgs w1)"
  shows "dom (fs w1) = dom (fs w0) \<union> asset_path ` set imgs
    \<and> dom (fs w2) = dom (fs w1)
    \<and> card (asset_path ` set imgs) = length imgs
    \<and> (\<forall>item\<in>set imgs.
          fs w2 (asset_path item) = Some (File (body (loc (snd (call_of item))))))"
proof -
  have ok2: "service_ok env2" "fetch_ok env2"
    using assms(5,6) by (simp_all add: service_ok_def fetch_ok_def)
  note run1 = for_loop_fs_ok [OF assms(1,2,3), of "length imgs" 0 imgs w0]
  note run2 = for_loop_fs_ok [OF assms(4) ok2, of "length imgs" 0 imgs w1]
  have fs1: "fs w1 = fs (world_of (generation_loop env1 imgs w0))"
    unfolding assms(8) using run1 by (intro batch_fs) (simp add: generation_loop_def)
  have fs2: "fs w2 = fs (world_of (generation_loop env2 imgs w1))"
    unfolding assms(9) using run2 by (intro batch_fs) (simp add: generation_loop_def)
  have d1: "dom (fs w1) = dom (fs w0) \<union> asset_path ` set imgs"
    unfolding fs1 generation_loop_def using run1 by blast
  have "dom (fs w2) = dom (fs w1) \<union> asset_path ` set imgs"
    unfolding fs2 generation_loop_def using run2 by blast
  then have d2: "dom (fs w2) = dom (fs w1)"
    using d1 by blast
  have paths: "distinct (map asset_path imgs)"
    using assms(7) by (rule distinct_asset_paths)
  then have "card (set (map asset_path imgs)) = length (map asset_path imgs)"
    by (rule distinct_card)
  then have count: "card (asset_path ` set imgs) = length imgs"
    by simp
  have fresh: "\<forall>item\<in>set imgs.
      fs w2 (asset_path item) = Some (File (body (loc (snd (call_of item)))))"
    unfolding fs2 generation_loop_def
    using for_loop_fs_pure [OF assms(4,5,6) paths, of "length imgs" 0 w1] by blast
  from d1 d2 count fresh show ?thesis by blast
qed

theorem rerun_overwrites_witness:
  "console_ok (scripted []) \<and> service_ok (scripted []) \<and> fetch_ok (scripted [])
   \<and> console_ok rerun \<and> distinct (map fst two_items)
   \<and> fs (world_of (batch (scripted []) two_items empty_world))
        (asset_path (''a.png'', ''1:1'', ''x'')) = Some (File ''https://img.test/x'')
   \<and> fs (world_of (batch rerun two_items
          (world_of (batch (scripted []) two_items empty_world))))
        (asset_path (''a.png'', ''1:1'', ''x'')) = Some (File ''v2 https://img.test/x'')
   \<and> fs (world_of (batch rerun two_items
          (world_of (batch (scripted []) two_items empty_world))))
        (asset_path (''b.png'', ''16:9'', ''y'')) = Some (File ''v2 https://img.test/y'')
   \<and> dom (fs (world_of (batch rerun two_items
          (world_of (batch (scripted []) two_items empty_world))))) =
       {asset_path (''a.png'', ''1:1'', ''x''), asset_path (''b.png'', ''16:9'', ''y'')}"
proof -
  let ?w1 = "world_of (batch (scripted []) two_items empty_world)"
  let ?w2 = "world_of (batch rerun two_items ?w1)"
  have h1: "console_ok (scripted [])" "service_ok (scripted [])" "fetch_ok (scripted [])"
    by (simp_all add: console_ok_def service_ok_def fetch_ok_def scripted_def)
  have h2: "console_ok rerun"
    by (simp add: console_ok_def rerun_def scripted_def)
  have s2: "\<forall>w m inp. service rerun w m inp = Inr (''https://img.test/'' @ in_prompt inp)"
    by (simp add: rerun_def scripted_def)
  have f2: "\<forall>w url p. fetch rerun w url p = Fetched (''v2 '' @ url)"
    by (simp add: rerun_def)
  have s1: "\<forall>w m inp. service (scripted []) w m inp = Inr (''https://img.test/'' @ in_prompt inp)"
    by (simp add: scripted_def)
  have f1: "\<forall>w url p. fetch (scripted []) w url p = Fetched url"
    by (simp add: scripted_def)
  have d: "distinct (map fst two_items)"
    by (simp add: two_items_def)
  note second = rerun_overwrites [OF h1 h2 s2 f2 d refl refl, of empty_world]
  have a: "(''a.png'', ''1:1'', ''x'') \<in> set two_items"
    and b: "(''b.png'', ''16:9'', ''y'') \<in> set two_items"
    by (simp_all add: two_items_def)
  have old: "fs ?w1 (asset_path (''a.png'', ''1:1'', ''x'')) = Some (File ''https://img.test/x'')"
  proof -
    have "fs ?w1 = fs (world_of (generation_loop (scripted []) two_items empty_world))"
      using for_loop_console_ok [OF h1(1), of "length two_items" 0 two_items empty_world]
      by (intro batch_fs) (simp add: generation_loop_def)
    moreover have "fs (world_of (generation_loop (scripted []) two_items empty_world))
        (asset_path (''a.png'', ''1:1'', ''x'')) = Some (File ''https://img.test/x'')"
      using for_loop_fs_pure [OF h1(1) s1 f1 distinct_asset_paths [OF d],
          of "length two_items" 0 empty_world] a
      unfolding generation_loop_def by (auto simp: call_of_def run_input_def)
    ultimately show ?thesis by simp
  qed
  from second a have new_a: "fs ?w2 (asset_path (''a.png'', ''1:1'', ''x'')) =
      Some (File (''v2 '' @ ''https://img.test/'' @
        in_prompt (snd (call_of (''a.png'', ''1:1'', ''x'')))))"
    by blast
  from second b have new_b: "fs ?w2 (asset_path (''b.png'', ''16:9'', ''y'')) =
      Some (File (''v2 '' @ ''https://img.test/'' @
        in_prompt (snd (call_of (''b.png'', ''16:9'', ''y'')))))"
    by blast
  from second have "dom (fs ?w2) = dom (fs empty_world) \<union> asset_path ` set two_items"
    by blast
  then have files: "dom (fs ?w2) =
      {asset_path (''a.png'', ''1:1'', ''x''), asset_path (''b.png'', ''16:9'', ''y'')}"
    by (simp add: empty_world_def two_items_def)
  from h1 h2 d old new_a new_b files show ?thesis
    by (simp add: call_of_def run_input_def)
qed

subsection \<open>Preparing the output directory\<close>

lemma extends_refl: "extends w w"
  by (simp add: extends_def)

lemma extends_trans: "extends w w' \<Longrightarrow> extends w' w'' \<Longrightarrow> extends w w''"
proof -
  assume a: "extends w w'" and b: "extends w' w''"
  have "fs w'' p = None \<or> fs w'' p = Some Dir" if "fs w p = None" for p
  proof (cases "fs w' p")
    case None
    then show ?thesis using b by (simp add: extends_def)
  next
    case (Some nd)
    moreover have "fs w' p = None \<or> fs w' p = Some Dir"
      using a that unfolding extends_def by blast
    ultimately have "nd = Dir" by simp
    then show ?thesis using b Some by (simp add: extends_def)
  qed
  then show ?thesis using a b by (simp add: extends_def)
qed

lemma tree_ok_logged [simp]: "tree_ok (logged ev w) = tree_ok w"
  by (simp add: tree_ok_def parent_ok_def)

lemma extends_Stat: "extends w (logged (Stat p) w)"
  by (simp add: extends_def)

lemma os_stat_world: "world_of (os_stat env p w) = logged (Stat p) w"
  by (simp add: os_stat_def split: option.splits)

lemma path_exists_world: "\<exists>b. path_exists env p w = Ok b (logged (Stat p) w)"
  using os_stat_world [of env p w]
  by (cases "os_stat env p w") (auto simp: path_exists_def)

lemma isdir_world:
  "\<exists>b. isdir env p w = Ok b (logged (Stat p) w) \<and> (b \<longrightarrow> fs w p = Some Dir)"
  by (auto simp: isdir_def os_stat_def split: option.splits)

lemma mkdir_cases:
  "(\<exists>e. mkdir env p w = Raise e (logged (Mkdir p) w) \<and> is_OSError e)
   \<or> (mkdir env p w = Ok () (logged (Mkdir p) w\<lparr>fs := (fs w)(p \<mapsto> Dir)\<rparr>)
       \<and> fs w p = None \<and> parent_ok w p)"
  by (auto simp: mkdir_def is_OSError_def split: option.splits)

lemma extends_Mkdir: "extends w (logged (Mkdir p) w)"
  by (simp add: extends_def)

lemma extends_new_dir:
  assumes "fs w p = None" and "parent_ok w p"
  shows "extends w (logged (Mkdir p) w\<lparr>fs := (fs w)(p \<mapsto> Dir)\<rparr>)"
proof -
  let ?w' = "logged (Mkdir p) w\<lparr>fs := (fs w)(p \<mapsto> Dir)\<rparr>"
  have f: "fs ?w' = (fs w)(p \<mapsto> Dir)" by simp
  have keep: "parent_ok ?w' q" if "parent_ok w q" for q
    using that assms(1) unfolding parent_ok_def Let_def f by auto
  have "tree_ok ?w'" if t: "tree_ok w"
    unfolding tree_ok_def
  proof (intro allI impI)
    fix q assume "fs ?w' q \<noteq> None"
    then have "q = p \<or> fs w q \<noteq> None" by (auto split: if_splits)
    then have "parent_ok w q" using t assms(2) by (auto simp: tree_ok_def)
    then show "parent_ok ?w' q" by (rule keep)
  qed
  then show ?thesis
    using assms(1) by (auto simp: extends_def)
qed

lemma extends_mkdir: "extends w (world_of (mkdir env p w))"
  using mkdir_cases [of env p w] extends_Mkdir [of w p] extends_new_dir [of w p]
  by auto

lemma extends_mkdir_leaf: "extends w (world_of (mkdir_leaf env name ok w))"
proof (cases "mkdir env name w")
  case (Ok u w')
  then show ?thesis using extends_mkdir [of w env name] by (simp add: mkdir_leaf_def)
next
  case (Raise e w')
  then have e: "extends w w'" using extends_mkdir [of w env name] by simp
  obtain b where "isdir env name w' = Ok b (logged (Stat name) w')"
    using isdir_world [of env name w'] by blast
  moreover have "extends w (logged (Stat name) w')"
    using e extends_Stat [of w' name] by (rule extends_trans)
  ultimately show ?thesis using Raise e by (simp add: mkdir_leaf_def)
qed

lemma extends_makedirs: "extends w (world_of (makedirs env name ok w))"
proof (induction env name ok w rule: makedirs.induct)
  case (1 env name exist_ok w)
  obtain head tail where st: "split_name name = (head, tail)"
    by (cases "split_name name")
  show ?case
  proof (cases "head \<noteq> [] \<and> tail \<noteq> []")
    case False
    then show ?thesis
      using st extends_mkdir_leaf [of w env name exist_ok]
      by (subst makedirs.simps) auto
  next
    case True
    obtain present where pe: "path_exists env head w = Ok present (logged (Stat head) w)"
      using path_exists_world [of env head w] by blast
    let ?w1 = "logged (Stat head) w"
    have e1: "extends w ?w1" by (rule extends_Stat)
    show ?thesis
    proof (cases present)
      case True
      have "extends w (world_of (mkdir_leaf env name exist_ok ?w1))"
        using e1 extends_mkdir_leaf [of ?w1 env name exist_ok] by (rule extends_trans)
      then show ?thesis
        using st \<open>head \<noteq> [] \<and> tail \<noteq> []\<close> pe True
        by (subst makedirs.simps) simp
    next
      case False
      let ?r = "makedirs env head exist_ok ?w1"
      have "extends ?w1 (world_of ?r)"
        using "1.IH" [OF st [symmetric] \<open>head \<noteq> [] \<and> tail \<noteq> []\<close> pe False] .
      with e1 have e2: "extends w (world_of ?r)" by (rule extends_trans)
      have e3: "extends w (world_of (mkdir_leaf env name exist_ok (world_of ?r)))"
        using e2 extends_mkdir_leaf [of "world_of ?r" env name exist_ok]
        by (rule extends_trans)
      show ?thesis
        using st \<open>head \<noteq> [] \<and> tail \<noteq> []\<close> pe False e2 e3
        by (subst makedirs.simps) (cases ?r; simp)
    qed
  qed
qed


lemma split_ASSETS:
  "split_name ASSETS =
     (''C:/Users/useva/.openclaw/workspace/projects/card-ledger/public'', ''assets'')"
  by code_simp

lemma ancestors_chain:
  "list_all (\<lambda>(d, c). fst (split_name c) = d \<and> \<not> list_all (\<lambda>c. c = CHR ''/'') d)
     (zip (ancestors ASSETS @ [ASSETS]) (tl (ancestors ASSETS @ [ASSETS])))"
  by code_simp

lemma parent_is_dir:
  "tree_ok w \<Longrightarrow> fs w p \<noteq> None \<Longrightarrow> \<not> list_all (\<lambda>c. c = CHR ''/'') (fst (split_name p)) \<Longrightarrow>
     fs w (fst (split_name p)) = Some Dir"
  by (auto simp: tree_ok_def parent_ok_def Let_def)

lemma chain_dirs:
  assumes "tree_ok w"
  shows "ds \<noteq> [] \<Longrightarrow> fs w (last ds) = Some Dir \<Longrightarrow>
    list_all (\<lambda>(d, c). fst (split_name c) = d \<and> \<not> list_all (\<lambda>c. c = CHR ''/'') d)
      (zip ds (tl ds)) \<Longrightarrow>
    \<forall>d\<in>set ds. fs w d = Some Dir"
proof (induction ds)
  case Nil
  then show ?case by simp
next
  case step: (Cons d ds)
  show ?case
  proof (cases ds)
    case Nil
    then show ?thesis using step.prems by simp
  next
    case more: (Cons c cs)
    have "fs w (last ds) = Some Dir"
      using step.prems(2) more by simp
    moreover have "list_all (\<lambda>(d, c). fst (split_name c) = d \<and> \<not> list_all (\<lambda>c. c = CHR ''/'') d)
        (zip ds (tl ds))"
      using step.prems(3) more by simp
    moreover have "ds \<noteq> []" using more by simp
    ultimately have rest: "\<forall>d\<in>set ds. fs w d = Some Dir"
      by (intro step.IH)
    then have c: "fs w c = Some Dir" using more by simp
    have "fst (split_name c) = d" and "\<not> list_all (\<lambda>c. c = CHR ''/'') d"
      using step.prems(3) more by simp_all
    then have "fs w d = Some Dir"
      using parent_is_dir [OF assms, of c] c by simp
    with rest show ?thesis by simp
  qed
qed

lemma mkdir_leaf_Ok:
  assumes "mkdir_leaf env name ok w = Ok u w'"
  shows "fs w' name = Some Dir"
proof -
  from mkdir_cases [of env name w] show ?thesis
  proof
    assume "\<exists>e. mkdir env name w = Raise e (logged (Mkdir name) w) \<and> is_OSError e"
    then obtain e where m: "mkdir env name w = Raise e (logged (Mkdir name) w)"
      and e: "is_OSError e" by blast
    let ?w1 = "logged (Mkdir name) w"
    obtain b where i: "isdir env name ?w1 = Ok b (logged (Stat name) ?w1)"
      and d: "b \<longrightarrow> fs ?w1 name = Some Dir"
      using isdir_world [of env name ?w1] by blast
    from assms m e i have "b" and "w' = logged (Stat name) ?w1"
      by (auto simp: mkdir_leaf_def split: if_splits)
    with d show ?thesis by simp
  next
    assume "mkdir env name w = Ok () (logged (Mkdir name) w\<lparr>fs := (fs w)(name \<mapsto> Dir)\<rparr>)
      \<and> fs w name = None \<and> parent_ok w name"
    with assms show ?thesis by (auto simp: mkdir_leaf_def)
  qed
qed

lemma prepare_Ok_dir:
  assumes "prepare env w = Ok u w'"
  shows "fs w' ASSETS = Some Dir"
proof -
  let ?head = "''C:/Users/useva/.openclaw/workspace/projects/card-ledger/public''"
  obtain present where pe: "path_exists env ?head w = Ok present (logged (Stat ?head) w)"
    using path_exists_world [of env ?head w] by blast
  have "\<exists>wx. mkdir_leaf env ASSETS True wx = Ok u w'"
  proof (cases present)
    case True
    then show ?thesis
      using assms pe unfolding prepare_def
      by (subst (asm) makedirs.simps) (auto simp: split_ASSETS)
  next
    case False
    then show ?thesis
      using assms pe unfolding prepare_def
      by (subst (asm) makedirs.simps) (auto simp: split_ASSETS split: res.splits if_splits)
  qed
  then show ?thesis using mkdir_leaf_Ok by blast
qed

lemma prepare_existing:
  assumes "stat_ok env" and "tree_ok w" and "fs w ASSETS = Some Dir"
  shows "is_Ok (prepare env w) \<and> fs (world_of (prepare env w)) = fs w"
proof -
  let ?head = "''C:/Users/useva/.openclaw/workspace/projects/card-ledger/public''"
  let ?w1 = "logged (Stat ?head) w"
  let ?w2 = "logged (Mkdir ASSETS) ?w1"
  have "fs w ?head = Some Dir"
    using parent_is_dir [OF assms(2), of ASSETS] assms(3) by (simp add: split_ASSETS)
  then have pe: "path_exists env ?head w = Ok True ?w1"
    using assms(1) by (simp add: path_exists_def os_stat_def stat_ok_def)
  have "fs ?w1 ASSETS \<noteq> None" using assms(3) by simp
  then obtain e where m: "mkdir env ASSETS ?w1 = Raise e ?w2" and e: "is_OSError e"
    using mkdir_cases [of env ASSETS ?w1] by auto
  have i: "isdir env ASSETS ?w2 = Ok True (logged (Stat ASSETS) ?w2)"
    using assms(1,3) by (simp add: isdir_def os_stat_def stat_ok_def)
  have "mkdir_leaf env ASSETS True ?w1 = Ok () (logged (Stat ASSETS) ?w2)"
    using m e i by (simp add: mkdir_leaf_def)
  then have "prepare env w = Ok () (logged (Stat ASSETS) ?w2)"
    using pe unfolding prepare_def
    by (subst makedirs.simps) (simp add: split_ASSETS)
  then show ?thesis by simp
qed


lemma chain_splits:
  "list_all (\<lambda>name. snd (split_name name) \<noteq> ''.''
      \<and> (fst (split_name name) = []
          \<or> (fst (split_name name) \<in> set (ancestors ASSETS @ [ASSETS])
              \<and> snd (split_name name) \<noteq> [])))
     (ancestors ASSETS @ [ASSETS])"
  by code_simp

lemma chain_member:
  assumes "name \<in> set (ancestors ASSETS @ [ASSETS])" and "split_name name = (head, tail)"
  shows "tail \<noteq> ''.'' \<and> (head = [] \<or> (head \<in> set (ancestors ASSETS @ [ASSETS]) \<and> tail \<noteq> []))"
  using chain_splits assms unfolding list_all_iff by fastforce

lemma makedirs_Ok_dir:
  assumes "makedirs env name ok w = Ok u w'" and "snd (split_name name) \<noteq> ''.''"
  shows "fs w' name = Some Dir"
proof -
  obtain head tail where st: "split_name name = (head, tail)"
    by (cases "split_name name")
  obtain present where pe: "path_exists env head w = Ok present (logged (Stat head) w)"
    using path_exists_world [of env head w] by blast
  have "\<exists>wx. mkdir_leaf env name ok wx = Ok u w'"
    using assms pe st
    by (subst (asm) makedirs.simps) (auto split: res.splits if_splits)
  then show ?thesis using mkdir_leaf_Ok by blast
qed

lemma mkdir_leaf_creates:
  assumes "mkdir_ok env" and "stat_ok env" and "parent_ok w name"
    and "fs w name = None \<or> fs w name = Some Dir"
  shows "is_Ok (mkdir_leaf env name True w)"
proof (cases "fs w name")
  case None
  then have "mkdir env name w = Ok () (logged (Mkdir name) w\<lparr>fs := (fs w)(name \<mapsto> Dir)\<rparr>)"
    using assms(1,3) by (simp add: mkdir_def mkdir_ok_def)
  then show ?thesis by (simp add: mkdir_leaf_def)
next
  case (Some nd)
  then have d: "fs w name = Some Dir" using assms(4) by simp
  let ?e = "Exn FileExistsError (''[Errno 17] File exists: '' @ name)"
  let ?w1 = "logged (Mkdir name) w"
  have m: "mkdir env name w = Raise ?e ?w1"
    using assms(1) d by (simp add: mkdir_def mkdir_ok_def)
  have i: "isdir env name ?w1 = Ok True (logged (Stat name) ?w1)"
    using assms(2) d by (simp add: isdir_def os_stat_def stat_ok_def)
  show ?thesis
    using m i by (simp add: mkdir_leaf_def is_OSError_def)
qed

lemma extends_way_clear: "extends w w' \<Longrightarrow> way_clear w \<Longrightarrow> way_clear w'"
  unfolding extends_def way_clear_def by blast

lemma makedirs_creates:
  "mkdir_ok env \<longrightarrow> stat_ok env \<longrightarrow> ok \<longrightarrow> name \<in> set (ancestors ASSETS @ [ASSETS]) \<longrightarrow>
     way_clear w \<longrightarrow> is_Ok (makedirs env name ok w)"
proof (induction env name ok w rule: makedirs.induct)
  case (1 env name exist_ok w)
  show ?case
  proof (intro impI)
    assume mk: "mkdir_ok env" and st: "stat_ok env" and ok: exist_ok
      and mem: "name \<in> set (ancestors ASSETS @ [ASSETS])" and clear: "way_clear w"
    obtain head tail where sp: "split_name name = (head, tail)"
      by (cases "split_name name")
    from chain_member [OF mem sp] have dot: "tail \<noteq> ''.''"
      and up: "head = [] \<or> (head \<in> set (ancestors ASSETS @ [ASSETS]) \<and> tail \<noteq> [])"
      by simp_all
    have here: "fs w name = None \<or> fs w name = Some Dir"
      using clear mem unfolding way_clear_def by blast
    show "is_Ok (makedirs env name exist_ok w)"
    proof (cases "head = []")
      case True
      then have "parent_ok w name" using sp by (simp add: parent_ok_def)
      then have "is_Ok (mkdir_leaf env name True w)"
        using mk st here by (intro mkdir_leaf_creates)
      then show ?thesis
        using sp True ok by (subst makedirs.simps) simp
    next
      case False
      with up have hm: "head \<in> set (ancestors ASSETS @ [ASSETS])" and tl: "tail \<noteq> []"
        by simp_all
      let ?w1 = "logged (Stat head) w"
      have clear1: "way_clear ?w1" using clear by (simp add: way_clear_def)
      have hd: "fs w head = None \<or> fs w head = Some Dir"
        using clear hm unfolding way_clear_def by blast
      show ?thesis
      proof (cases "fs w head")
        case (Some nd)
        then have d: "fs w head = Some Dir" using hd by simp
        then have pe: "path_exists env head w = Ok True ?w1"
          using st by (simp add: path_exists_def os_stat_def stat_ok_def)
        have "parent_ok ?w1 name" using sp d by (simp add: parent_ok_def)
        then have "is_Ok (mkdir_leaf env name True ?w1)"
          using mk st here by (intro mkdir_leaf_creates) simp_all
        then show ?thesis
          using sp False tl pe ok by (subst makedirs.simps) simp
      next
        case None
        then have pe: "path_exists env head w = Ok False ?w1"
          using st by (simp add: path_exists_def os_stat_def stat_ok_def)
        let ?r = "makedirs env head exist_ok ?w1"
        have cond: "head \<noteq> [] \<and> tail \<noteq> []" using False tl by simp
        have "is_Ok ?r"
          using "1.IH" [OF sp [symmetric] cond pe] mk st ok hm clear1 by blast
        then obtain u w2 where r: "?r = Ok u w2" by (cases ?r) auto
        have "extends ?w1 w2" using extends_makedirs [of ?w1 env head exist_ok] r by simp
        then have clear2: "way_clear w2" using clear1 by (rule extends_way_clear)
        have "snd (split_name head) \<noteq> ''.''"
          using chain_member [OF hm, of "fst (split_name head)" "snd (split_name head)"] by simp
        then have "fs w2 head = Some Dir" using r by (intro makedirs_Ok_dir)
        then have "parent_ok w2 name" using sp by (simp add: parent_ok_def)
        moreover have "fs w2 name = None \<or> fs w2 name = Some Dir"
          using clear2 mem unfolding way_clear_def by blast
        ultimately have "is_Ok (mkdir_leaf env name True w2)"
          using mk st by (intro mkdir_leaf_creates)
        then show ?thesis
          using sp cond pe r dot ok by (subst makedirs.simps) simp
      qed
    qed
  qed
qed

lemma prepare_creates:
  assumes "mkdir_ok env" and "stat_ok env" and "way_clear w"
  shows "is_Ok (prepare env w)"
  using makedirs_creates [of env True ASSETS w] assms by (simp add: prepare_def)

text \<open>
  C8. Preparing the output directory. When \<open>ASSETS\<close> already is a directory (in a
  file system where every entry lies in a directory, and with \<^verbatim>\<open>os.stat\<close> working),
  the call returns normally and leaves the file system as it is. When the platform
  refuses no \<^verbatim>\<open>mkdir\<close> and nothing but directories lies on the way to \<open>ASSETS\<close>, the
  call returns normally whichever of these directories are missing, and afterwards
  \<open>ASSETS\<close> is a directory, as is every directory on the way to it: the missing ones
  have been created. Whenever the call returns normally, \<open>ASSETS\<close> is a directory
  afterwards, what existed before is still there, everything new is a directory, and
  the script goes on with the batch. Hence a second preparation after a successful one
  returns normally and changes nothing. When the call raises, the script ends with that
  exception at once: nothing is printed, no item is generated, and no handler of the
  loop is involved.
\<close>

theorem prepare_idempotent_and_fatal:
  "(stat_ok env \<and> tree_ok w \<and> fs w ASSETS = Some Dir \<longrightarrow>
      is_Ok (prepare env w) \<and> fs (world_of (prepare env w)) = fs w)
   \<and> (stat_ok env \<and> mkdir_ok env \<and> way_clear w \<longrightarrow>
        is_Ok (prepare env w)
        \<and> fs (world_of (prepare env w)) ASSETS = Some Dir
        \<and> (tree_ok w \<longrightarrow>
              (\<forall>d\<in>set (ancestors ASSETS). fs (world_of (prepare env w)) d = Some Dir)))
   \<and> (prepare env w = Ok () w' \<longrightarrow>
        fs w' ASSETS = Some Dir
        \<and> (\<forall>p nd. fs w p = Some nd \<longrightarrow> fs w' p = Some nd)
        \<and> (\<forall>p. fs w p = None \<longrightarrow> fs w' p = None \<or> fs w' p = Some Dir)
        \<and> main env w = batch env images w')
   \<and> (prepare env w = Ok () w' \<and> tree_ok w \<longrightarrow>
        tree_ok w' \<and> (\<forall>d\<in>set (ancestors ASSETS). fs w' d = Some Dir))
   \<and> (prepare env w = Ok () w' \<and> tree_ok w \<and> stat_ok env \<longrightarrow>
        is_Ok (prepare env w') \<and> fs (world_of (prepare env w')) = fs w')
   \<and> (prepare env w = Raise e w' \<longrightarrow>
        main env w = Raise e w'
        \<and> stdout (trace w') = stdout (trace w)
        \<and> pacing_trace (trace w') = pacing_trace (trace w)
        \<and> (\<forall>p nd. fs w p = Some nd \<longrightarrow> fs w' p = Some nd))"
proof -
  have ext: "extends w (world_of (prepare env w))"
    unfolding prepare_def by (rule extends_makedirs)
  have existing: "stat_ok env \<and> tree_ok w \<and> fs w ASSETS = Some Dir \<longrightarrow>
      is_Ok (prepare env w) \<and> fs (world_of (prepare env w)) = fs w"
    using prepare_existing [of env w] by blast
  have created: "fs v ASSETS = Some Dir
        \<and> (\<forall>p nd. fs w p = Some nd \<longrightarrow> fs v p = Some nd)
        \<and> (\<forall>p. fs w p = None \<longrightarrow> fs v p = None \<or> fs v p = Some Dir)
        \<and> main env w = batch env images v"
    if ok: "prepare env w = Ok () v" for v
  proof -
    have "fs v ASSETS = Some Dir" using ok by (rule prepare_Ok_dir)
    moreover have "extends w v" using ext ok by simp
    moreover have "main env w = batch env images v" using ok by (simp add: main_def)
    ultimately show ?thesis unfolding extends_def by blast
  qed
  have tree: "tree_ok v \<and> (\<forall>d\<in>set (ancestors ASSETS). fs v d = Some Dir)"
    if ok: "prepare env w = Ok () v" and t: "tree_ok w" for v
  proof -
    have t': "tree_ok v" using ext ok t by (simp add: extends_def)
    have "fs v (last (ancestors ASSETS @ [ASSETS])) = Some Dir"
      using prepare_Ok_dir [OF ok] by simp
    then have "\<forall>d\<in>set (ancestors ASSETS @ [ASSETS]). fs v d = Some Dir"
      using chain_dirs [OF t', of "ancestors ASSETS @ [ASSETS]"] ancestors_chain by simp
    with t' show ?thesis by simp
  qed
  have creates: "is_Ok (prepare env w)
        \<and> fs (world_of (prepare env w)) ASSETS = Some Dir
        \<and> (tree_ok w \<longrightarrow>
              (\<forall>d\<in>set (ancestors ASSETS). fs (world_of (prepare env w)) d = Some Dir))"
    if s: "stat_ok env" and m: "mkdir_ok env" and c: "way_clear w"
  proof -
    have "is_Ok (prepare env w)" using m s c by (rule prepare_creates)
    then have ok: "prepare env w = Ok () (world_of (prepare env w))"
      by (cases "prepare env w") simp_all
    show ?thesis
      using \<open>is_Ok (prepare env w)\<close> created [OF ok] tree [OF ok] by blast
  qed
  have again: "is_Ok (prepare env w') \<and> fs (world_of (prepare env w')) = fs w'"
    if ok: "prepare env w = Ok () w'" and t: "tree_ok w" and s: "stat_ok env"
    using prepare_existing [OF s, of w'] tree [OF ok t] prepare_Ok_dir [OF ok] by blast
  have fatal: "main env w = Raise e w'
        \<and> stdout (trace w') = stdout (trace w)
        \<and> pacing_trace (trace w') = pacing_trace (trace w)
        \<and> (\<forall>p nd. fs w p = Some nd \<longrightarrow> fs w' p = Some nd)"
    if bad: "prepare env w = Raise e w'"
  proof -
    have "extends w w'" using ext bad by simp
    moreover have "main env w = Raise e w'" using bad by (simp add: main_def)
    ultimately show ?thesis unfolding extends_def by blast
  qed
  from existing creates created [of w'] tree [of w'] again fatal show ?thesis by blast
qed

theorem prepare_idempotent_and_fatal_witness:
  "stat_ok (scripted []) \<and> mkdir_ok (scripted []) \<and> tree_ok empty_world
   \<and> way_clear empty_world
   \<and> is_Ok (prepare (scripted []) empty_world)
   \<and> fs (world_of (prepare (scripted []) empty_world)) ''C:'' = Some Dir
   \<and> fs (world_of (prepare (scripted []) empty_world))
        ''C:/Users/useva/.openclaw/workspace/projects/card-ledger/public'' = Some Dir
   \<and> fs (world_of (prepare (scripted []) empty_world)) ASSETS = Some Dir
   \<and> is_Ok (prepare (scripted []) (world_of (prepare (scripted []) empty_world)))
   \<and> fs (world_of (prepare (scripted []) (world_of (prepare (scripted []) empty_world)))) =
       fs (world_of (prepare (scripted []) empty_world))
   \<and> exc (main read_only empty_world) = Exn OSError ''[Errno 13] Permission denied''
   \<and> \<not> is_Ok (main read_only empty_world)
   \<and> stdout (trace (world_of (main read_only empty_world))) = []
   \<and> pacing_trace (trace (world_of (main read_only empty_world))) = []"
proof -
  let ?w1 = "world_of (prepare (scripted []) empty_world)"
  let ?e = "Exn OSError ''[Errno 13] Permission denied''"
  let ?wx = "world_of (prepare read_only empty_world)"
  have s: "stat_ok (scripted [])"
    by (simp add: stat_ok_def scripted_def)
  have t: "tree_ok empty_world"
    by (simp add: tree_ok_def empty_world_def)
  have k: "mkdir_ok (scripted [])"
    by (simp add: mkdir_ok_def scripted_def)
  have c: "way_clear empty_world"
    by (simp add: way_clear_def empty_world_def)
  have done1: "is_Ok (prepare (scripted []) empty_world)"
    using prepare_idempotent_and_fatal [of "scripted []" empty_world] s k c by blast
  then have ok: "prepare (scripted []) empty_world = Ok () ?w1"
    by (cases "prepare (scripted []) empty_world") simp_all
  have "\<not> is_Ok (prepare read_only empty_world)"
    and "exc (prepare read_only empty_world) = ?e"
    by code_simp+
  then have bad: "prepare read_only empty_world = Raise ?e ?wx"
    by (cases "prepare read_only empty_world") simp_all
  have m: "''C:'' \<in> set (ancestors ASSETS)"
    "''C:/Users/useva/.openclaw/workspace/projects/card-ledger/public'' \<in> set (ancestors ASSETS)"
    by code_simp+
  note good = prepare_idempotent_and_fatal [of "scripted []" empty_world ?w1]
  note denied = prepare_idempotent_and_fatal [of read_only empty_world ?wx ?e]
  from good ok s t m have
    "fs ?w1 ''C:'' = Some Dir"
    "fs ?w1 ''C:/Users/useva/.openclaw/workspace/projects/card-ledger/public'' = Some Dir"
    "fs ?w1 ASSETS = Some Dir"
    "is_Ok (prepare (scripted []) ?w1)"
    "fs (world_of (prepare (scripted []) ?w1)) = fs ?w1"
    by blast+
  moreover from denied bad have "main read_only empty_world = Raise ?e ?wx"
    "stdout (trace ?wx) = stdout (trace empty_world)"
    "pacing_trace (trace ?wx) = pacing_trace (trace empty_world)"
    by blast+
  moreover have "trace empty_world = []"
    by (simp add: empty_world_def)
  ultimately show ?thesis
    using s k t c done1 by simp
qed

subsection \<open>The asset list\<close>

lemma try_body_ns_frame:
  "n = ''images'' \<or> n = ''ASSETS'' \<Longrightarrow> fst (try_body_ns env item ns w) n = ns n"
  by (cases item)
    (auto simp: try_body_ns_def Let_def split: res.splits sum.splits)

lemma try_except_ns_frame:
  "n = ''images'' \<or> n = ''ASSETS'' \<Longrightarrow> fst (try_except_ns env item ns w) n = ns n"
  using try_body_ns_frame [of n env item ns w]
  by (cases "try_body_ns env item ns w")
    (auto simp: try_except_ns_def split: res.splits)

lemma loop_body_ns_frame:
  "n = ''images'' \<or> n = ''ASSETS'' \<Longrightarrow> fst (loop_body_ns env i item ns w) n = ns n"
proof -
  assume n: "n = ''images'' \<or> n = ''ASSETS''"
  obtain filename aspect prompt where item: "item = (filename, aspect, prompt)"
    by (cases item)
  let ?ns1 = "ns(''i'' \<mapsto> PInt (int i), ''filename'' \<mapsto> PStr filename,
                     ''aspect'' \<mapsto> PStr aspect, ''prompt'' \<mapsto> PStr prompt)"
  have a: "?ns1 n = ns n" using n by auto
  have b: "fst (try_except_ns env item ?ns1 w1) n = ns n" for w1
    using try_except_ns_frame [OF n, of env item ?ns1 w1] a by simp
  show ?thesis
  proof (cases "global_assets ?ns1 ''images''")
    case (Inl e)
    then show ?thesis using a by (simp add: loop_body_ns_def item Let_def)
  next
    case (Inr imgs)
    show ?thesis
    proof (cases "print env (progress_line i (length imgs) filename aspect) w")
      case (Raise e w1)
      then show ?thesis using a Inr by (simp add: loop_body_ns_def item Let_def)
    next
      case (Ok u w1)
      obtain ns2 r2 where t: "try_except_ns env item ?ns1 w1 = (ns2, r2)"
        by (cases "try_except_ns env item ?ns1 w1")
      have c: "ns2 n = ns n" using b [of w1] t by simp
      show ?thesis
        using Inr Ok t c unfolding loop_body_ns_def item
        by (cases r2; cases "global_assets ns2 ''images''") (simp_all add: Let_def)
    qed
  qed
qed

lemma for_loop_ns_frame:
  "n = ''images'' \<or> n = ''ASSETS'' \<Longrightarrow> fst (for_loop_ns env xs ns w) n = ns n"
proof (induction xs arbitrary: ns w)
  case Nil
  then show ?case by simp
next
  case (Cons x xs)
  obtain i item where x: "x = (i, item)" by (cases x)
  obtain ns' r where b: "loop_body_ns env i item ns w = (ns', r)"
    by (cases "loop_body_ns env i item ns w")
  have f: "ns' n = ns n"
    using loop_body_ns_frame [OF Cons.prems, of env i item ns w] b by simp
  show ?case
  proof (cases r)
    case (Ok u w')
    then show ?thesis using Cons.IH [OF Cons.prems, of ns' w'] f b x by simp
  next
    case (Raise e w')
    then show ?thesis using f b x by simp
  qed
qed


lemma generation_loop_ns_frame:
  "n = ''images'' \<or> n = ''ASSETS'' \<Longrightarrow> fst (generation_loop_ns env ns w) n = ns n"
  using for_loop_ns_frame [of n]
  by (cases "global_assets ns ''images''") (simp_all add: generation_loop_ns_def)

lemma summary_entry_ns_frame:
  "n = ''images'' \<or> n = ''ASSETS'' \<Longrightarrow> fst (summary_entry_ns env item ns w) n = ns n"
  by (cases item)
    (auto simp: summary_entry_ns_def Let_def split: res.splits sum.splits)

lemma summary_loop_ns_frame:
  "n = ''images'' \<or> n = ''ASSETS'' \<Longrightarrow> fst (summary_loop_ns env xs ns w) n = ns n"
proof (induction xs arbitrary: ns w)
  case Nil
  then show ?case by simp
next
  case (Cons item xs)
  obtain ns' r where b: "summary_entry_ns env item ns w = (ns', r)"
    by (cases "summary_entry_ns env item ns w")
  have f: "ns' n = ns n"
    using summary_entry_ns_frame [OF Cons.prems, of env item ns w] b by simp
  show ?case
  proof (cases r)
    case (Ok u w')
    then show ?thesis using Cons.IH [OF Cons.prems, of ns' w'] f b by simp
  next
    case (Raise e w')
    then show ?thesis using f b by simp
  qed
qed

lemma summary_ns_frame:
  "n = ''images'' \<or> n = ''ASSETS'' \<Longrightarrow> fst (summary_ns env ns w) n = ns n"
proof -
  assume n: "n = ''images'' \<or> n = ''ASSETS''"
  let ?h = "and_then (print env ([CHR 0x0A] @ rule_line) w) (\<lambda>_ w1.
             and_then (print env ''SUMMARY'' w1) (\<lambda>_. print env rule_line))"
  show ?thesis
  proof (cases ?h)
    case (Raise e w3)
    then show ?thesis by (simp add: summary_ns_def)
  next
    case (Ok u w3)
    show ?thesis
    proof (cases "global_assets ns ''images''")
      case (Inl e)
      then show ?thesis using Ok by (simp add: summary_ns_def)
    next
      case (Inr imgs)
      obtain ns' r where l: "summary_loop_ns env imgs ns w3 = (ns', r)"
        by (cases "summary_loop_ns env imgs ns w3")
      have "ns' n = ns n"
        using summary_loop_ns_frame [OF n, of env imgs ns w3] l by simp
      then show ?thesis
        using Ok Inr l by (cases r) (simp_all add: summary_ns_def)
    qed
  qed
qed

text \<open>
  With \<open>ASSETS\<close> and \<open>images\<close> bound as the script binds them, each operation has the
  outcome of its counterpart that takes the list as a value.
\<close>

lemma try_body_ns_outcome:
  "ns ''ASSETS'' = Some (PStr ASSETS) \<Longrightarrow> snd (try_body_ns env item ns w) = try_body env item w"
  by (cases item)
    (auto simp: try_body_ns_def try_body_def global_str_def and_then_def Let_def
      split: res.splits)

lemma try_except_ns_outcome:
  "ns ''ASSETS'' = Some (PStr ASSETS) \<Longrightarrow>
     snd (try_except_ns env item ns w) = try_except env item w"
  using try_body_ns_outcome [of ns env item w]
  by (cases "try_body_ns env item ns w")
    (auto simp: try_except_ns_def try_except_def split: res.splits)

lemma loop_body_ns_outcome:
  assumes "ns ''ASSETS'' = Some (PStr ASSETS)" and "ns ''images'' = Some (PAssets imgs)"
  shows "snd (loop_body_ns env i item ns w) = loop_body env (length imgs) i item w"
proof -
  obtain filename aspect prompt where item: "item = (filename, aspect, prompt)"
    by (cases item)
  let ?ns1 = "ns(''i'' \<mapsto> PInt (int i), ''filename'' \<mapsto> PStr filename,
                     ''aspect'' \<mapsto> PStr aspect, ''prompt'' \<mapsto> PStr prompt)"
  have a: "?ns1 ''ASSETS'' = Some (PStr ASSETS)" and g: "global_assets ?ns1 ''images'' = Inr imgs"
    using assms by (simp_all add: global_assets_def)
  show ?thesis
  proof (cases "print env (progress_line i (length imgs) filename aspect) w")
    case (Raise e w1)
    then show ?thesis using g by (simp add: loop_body_ns_def loop_body_def item Let_def)
  next
    case (Ok u w1)
    obtain ns2 r2 where t: "try_except_ns env item ?ns1 w1 = (ns2, r2)"
      by (cases "try_except_ns env item ?ns1 w1")
    have r2: "try_except env item w1 = r2"
      using try_except_ns_outcome [of ?ns1 env item w1] a t by simp
    have "ns2 ''images'' = ?ns1 ''images''"
      using try_except_ns_frame [of "''images''" env item ?ns1 w1] t by simp
    then have g2: "global_assets ns2 ''images'' = Inr imgs"
      using assms(2) by (simp add: global_assets_def)
    show ?thesis
      using g Ok t r2 g2 unfolding loop_body_ns_def loop_body_def item
      by (cases r2) (simp_all add: Let_def)
  qed
qed

lemma for_loop_ns_outcome:
  "ns ''ASSETS'' = Some (PStr ASSETS) \<Longrightarrow> ns ''images'' = Some (PAssets imgs) \<Longrightarrow>
     snd (for_loop_ns env xs ns w) = for_loop env (length imgs) xs w"
proof (induction xs arbitrary: ns w)
  case Nil
  then show ?case by simp
next
  case (Cons x xs)
  obtain i item where x: "x = (i, item)" by (cases x)
  obtain ns' r where b: "loop_body_ns env i item ns w = (ns', r)"
    by (cases "loop_body_ns env i item ns w")
  have r: "r = loop_body env (length imgs) i item w"
    using loop_body_ns_outcome [of ns imgs env i item w] Cons.prems b by simp
  have a': "ns' ''ASSETS'' = Some (PStr ASSETS)"
    using loop_body_ns_frame [of "''ASSETS''" env i item ns w] b Cons.prems(1) by simp
  have i': "ns' ''images'' = Some (PAssets imgs)"
    using loop_body_ns_frame [of "''images''" env i item ns w] b Cons.prems(2) by simp
  show ?case
  proof (cases r)
    case (Ok u w')
    then show ?thesis using Cons.IH [of ns' w'] a' i' b r x by simp
  next
    case (Raise e w')
    then show ?thesis using b r x by simp
  qed
qed

lemma summary_entry_ns_outcome:
  "ns ''ASSETS'' = Some (PStr ASSETS) \<Longrightarrow>
     snd (summary_entry_ns env item ns w) = summary_entry env item w"
  using path_exists_world [of env "path_join ASSETS (fst item)" w]
  by (cases item)
    (auto simp: summary_entry_ns_def summary_entry_def global_str_def and_then_def Let_def
      split: res.splits)

lemma summary_loop_ns_outcome:
  "ns ''ASSETS'' = Some (PStr ASSETS) \<Longrightarrow>
     snd (summary_loop_ns env xs ns w) = summary_loop env xs w"
proof (induction xs arbitrary: ns w)
  case Nil
  then show ?case by simp
next
  case (Cons item xs)
  obtain ns' r where b: "summary_entry_ns env item ns w = (ns', r)"
    by (cases "summary_entry_ns env item ns w")
  have r: "r = summary_entry env item w"
    using summary_entry_ns_outcome [of ns env item w] Cons.prems b by simp
  have a': "ns' ''ASSETS'' = Some (PStr ASSETS)"
    using summary_entry_ns_frame [of "''ASSETS''" env item ns w] b Cons.prems by simp
  show ?case
  proof (cases r)
    case (Ok u w')
    then show ?thesis using Cons.IH [of ns' w'] a' b r by simp
  next
    case (Raise e w')
    then show ?thesis using b r by simp
  qed
qed

lemma summary_ns_outcome:
  assumes "ns ''ASSETS'' = Some (PStr ASSETS)" and "ns ''images'' = Some (PAssets imgs)"
  shows "snd (summary_ns env ns w) = summary env imgs w"
proof -
  let ?h = "and_then (print env ([CHR 0x0A] @ rule_line) w) (\<lambda>_ w1.
             and_then (print env ''SUMMARY'' w1) (\<lambda>_. print env rule_line))"
  have g: "global_assets ns ''images'' = Inr imgs"
    using assms(2) by (simp add: global_assets_def)
  have s: "summary env imgs w =
      and_then ?h (\<lambda>_ w3. and_then (summary_loop env imgs w3) (\<lambda>_. print env ''DONE''))"
    by (simp add: summary_def and_then_def split: res.splits)
  show ?thesis
  proof (cases ?h)
    case (Raise e w3)
    then show ?thesis unfolding s by (simp add: summary_ns_def)
  next
    case (Ok u w3)
    obtain ns' r where l: "summary_loop_ns env imgs ns w3 = (ns', r)"
      by (cases "summary_loop_ns env imgs ns w3")
    have "summary_loop env imgs w3 = r"
      using summary_loop_ns_outcome [of ns env imgs w3] assms(1) l by simp
    then show ?thesis
      unfolding s using Ok g l by (cases r) (simp_all add: summary_ns_def)
  qed
qed

lemma script_outcome: "snd (script env w) = main env w"
proof (cases "prepare env w")
  case (Raise e w1)
  then show ?thesis
    by (simp add: script_def main_def prepare_def global_str_def)
next
  case (Ok u w1)
  let ?ns2 = "[''ASSETS'' \<mapsto> PStr ASSETS, ''images'' \<mapsto> PAssets images]"
  have a: "?ns2 ''ASSETS'' = Some (PStr ASSETS)" and i: "?ns2 ''images'' = Some (PAssets images)"
    by simp_all
  obtain ns3 r where g: "generation_loop_ns env ?ns2 w1 = (ns3, r)"
    by (cases "generation_loop_ns env ?ns2 w1")
  have ga: "global_assets ?ns2 ''images'' = Inr images"
    by (simp add: global_assets_def)
  have "generation_loop_ns env ?ns2 w1 = for_loop_ns env (enumerate 0 images) ?ns2 w1"
    by (simp only: generation_loop_ns_def ga sum.case)
  moreover have "snd (for_loop_ns env (enumerate 0 images) ?ns2 w1) =
      for_loop env (length images) (enumerate 0 images) w1"
    using a i by (rule for_loop_ns_outcome)
  ultimately have "snd (generation_loop_ns env ?ns2 w1) = generation_loop env images w1"
    by (simp only: generation_loop_def)
  then have r: "r = generation_loop env images w1" using g by simp
  have a3: "ns3 ''ASSETS'' = Some (PStr ASSETS)"
    using generation_loop_ns_frame [of "''ASSETS''" env ?ns2 w1] g by simp
  have i3: "ns3 ''images'' = Some (PAssets images)"
    using generation_loop_ns_frame [of "''images''" env ?ns2 w1] g by simp
  show ?thesis
  proof (cases r)
    case (Raise e w2)
    then show ?thesis
      using Ok g r
      by (simp add: script_def main_def prepare_def global_str_def batch_def)
  next
    case ok2: (Ok u2 w2)
    then show ?thesis
      using Ok g r summary_ns_outcome [of ns3 images env w2] a3 i3
      by (simp add: script_def main_def prepare_def global_str_def batch_def)
  qed
qed

lemma script_images:
  "fst (script env w) ''images'' =
     (if is_Ok (prepare env w) then Some (PAssets images) else None)"
proof (cases "prepare env w")
  case (Raise e w1)
  then show ?thesis
    by (simp add: script_def prepare_def global_str_def)
next
  case (Ok u w1)
  let ?ns2 = "[''ASSETS'' \<mapsto> PStr ASSETS, ''images'' \<mapsto> PAssets images]"
  obtain ns3 r where g: "generation_loop_ns env ?ns2 w1 = (ns3, r)"
    by (cases "generation_loop_ns env ?ns2 w1")
  have i3: "ns3 ''images'' = Some (PAssets images)"
    using generation_loop_ns_frame [of "''images''" env ?ns2 w1] g by simp
  show ?thesis
  proof (cases r)
    case (Raise e w2)
    then show ?thesis
      using Ok g i3 by (simp add: script_def prepare_def global_str_def)
  next
    case ok2: (Ok u2 w2)
    then show ?thesis
      using Ok g i3 summary_ns_frame [of "''images''" env ns3 w2]
      by (simp add: script_def prepare_def global_str_def)
  qed
qed

text \<open>
  C9. In the hardcoded list every filename occurs once and every aspect ratio is one of
  \<^verbatim>\<open>16:9\<close>, \<^verbatim>\<open>1:1\<close> and \<^verbatim>\<open>9:16\<close> (each of which occurs); the list has 15 entries. No
  operation of the run modifies it: whatever the namespace and the world, and whatever
  fails, the generation loop and the summary pass leave the name \<^verbatim>\<open>images\<close> bound to what
  it was bound to (the directory preparation does not touch the namespace). So when
  the script ends, normally or by an exception, \<^verbatim>\<open>images\<close> is bound to the list of lines
  11 to 27 if line 11 was reached, and unbound if the preparation raised. Every read of
  the name during the run therefore gave that list: the script on the namespace has
  the outcome of \<open>main\<close>, which takes the list as a constant.
\<close>

theorem images_invariants:
  "distinct (map fst images)
   \<and> set (map (\<lambda>item. fst (snd item)) images) = {''16:9'', ''1:1'', ''9:16''}
   \<and> length images = 15
   \<and> fst (generation_loop_ns env ns w) ''images'' = ns ''images''
   \<and> fst (summary_ns env ns w) ''images'' = ns ''images''
   \<and> fst (script env w) ''images'' =
       (if is_Ok (prepare env w) then Some (PAssets images) else None)
   \<and> snd (script env w) = main env w"
proof -
  have "distinct (map fst images)
    \<and> set (map (\<lambda>item. fst (snd item)) images) = {''16:9'', ''1:1'', ''9:16''}
    \<and> length images = 15"
    by (auto simp: images_def)
  moreover have "fst (generation_loop_ns env ns w) ''images'' = ns ''images''"
    by (rule generation_loop_ns_frame) simp
  moreover have "fst (summary_ns env ns w) ''images'' = ns ''images''"
    by (rule summary_ns_frame) simp
  ultimately show ?thesis
    using script_images [of env w] script_outcome [of env w] by simp
qed

text \<open>
  The namespace does change during a run, in the names the loop binds; the binding of
  \<^verbatim>\<open>images\<close> is not among the changes.
\<close>

theorem images_invariants_witness:
  "fst (generation_loop_ns (scripted [0])
      [''ASSETS'' \<mapsto> PStr ASSETS, ''images'' \<mapsto> PAssets two_items] empty_world) ''filename'' =
     Some (PStr ''b.png'')
   \<and> fst (generation_loop_ns (scripted [0])
      [''ASSETS'' \<mapsto> PStr ASSETS, ''images'' \<mapsto> PAssets two_items] empty_world) ''images'' =
     Some (PAssets two_items)"
proof -
  let ?ns = "[''ASSETS'' \<mapsto> PStr ASSETS, ''images'' \<mapsto> PAssets two_items]"
  have "fst (generation_loop_ns (scripted [0]) ?ns empty_world) ''filename'' =
      Some (PStr ''b.png'')"
    by code_simp
  moreover have "fst (generation_loop_ns (scripted [0]) ?ns empty_world) ''images'' =
      ?ns ''images''"
    using images_invariants [of "scripted [0]" ?ns empty_world] by blast
  ultimately show ?thesis by simp
qed

end
